theory Spec2Isabelle
  imports Main "HOL-Library.Multiset"
begin

section \<open>Data model of \<^verbatim>\<open>problem1/merge_worker.py\<close>\<close>

text \<open>
  Exceptions that \<^verbatim>\<open>MergeWorker.step\<close> can raise: \<^verbatim>\<open>IndexError\<close> from a list or
  string subscript out of range (\<^verbatim>\<open>self.data[index]\<close>, \<^verbatim>\<open>self.data[-1]\<close>,
  \<^verbatim>\<open>inbox['msg_type'][0]\<close>) and \<^verbatim>\<open>AttributeError\<close> from \<^verbatim>\<open>msg.msg_type\<close> when
  \<^verbatim>\<open>msg\<close> is still \<^verbatim>\<open>None\<close>.
\<close>

datatype error = IndexError | AttributeError

text \<open>
  The dataclass \<^verbatim>\<open>Message\<close>, which is also the JSON object stored in a mailbox file.
  The field \<^verbatim>\<open>values\<close> is called \<open>vals\<close> here.
\<close>

record message =
  msg_type :: string
  vals :: "int list"

record wstats =
  comparisons :: nat
  messages_sent :: nat
  messages_received :: nat
  values_output :: nat

text \<open>
  The dictionary \<^verbatim>\<open>self.state\<close>, which is also the JSON object of the state file. The
  phase is the string the code stores; the cursor and the length are natural numbers.
\<close>

record pstate =
  phase :: string
  index :: nat
  len :: nat

text \<open>
  The output file is text. Each \<^verbatim>\<open>f.write\<close> of the code writes either the separator
  \<^verbatim>\<open>', '\<close> or the decimal rendering of one integer, so the file is modelled as the list
  of these writes.
\<close>

datatype token = Sep | Val int

text \<open>
  The file operations of a step, in the order in which the code performs them:
  consuming the inbox file (\<^verbatim>\<open>unlink\<close>), one \<^verbatim>\<open>f.write\<close> to the output file,
  \<^verbatim>\<open>_save_state\<close> and \<^verbatim>\<open>write_msg\<close>.
\<close>

datatype event = Unlink message | Append token | Save pstate | Send message

text \<open>
  A worker object together with the four files it is connected to. \<open>state\<close> and
  \<open>stats\<close> are the attributes \<^verbatim>\<open>self.state\<close> and \<^verbatim>\<open>self.stats\<close>; a file that does not
  exist is \<open>None\<close>; \<open>trace\<close> records the file operations performed so far. The
  immutable \<^verbatim>\<open>self.data\<close> is passed to every function as a parameter.
\<close>

record env =
  state :: pstate
  stats :: wstats
  state_file :: "pstate option"
  inbox :: "message option"
  outbox :: "message option"
  sink :: "token list"
  trace :: "event list"

section \<open>State persistence\<close>

definition initial_state :: "int list \<Rightarrow> pstate" where
  "initial_state data = \<lparr>phase = ''INIT'', index = 0, len = length data\<rparr>"

definition load_state :: "int list \<Rightarrow> env \<Rightarrow> pstate" where
  "load_state data e = (case state_file e of Some s \<Rightarrow> s | None \<Rightarrow> initial_state data)"

definition save_state :: "env \<Rightarrow> env" where
  "save_state e = e\<lparr>state_file := Some (state e), trace := trace e @ [Save (state e)]\<rparr>"

definition zero_stats :: wstats where
  "zero_stats = \<lparr>comparisons = 0, messages_sent = 0, messages_received = 0, values_output = 0\<rparr>"

text \<open>
  \<^verbatim>\<open>MergeWorker.__init__\<close> on existing files: fresh statistics, and the state loaded
  from the state file (or the initial state).
\<close>

definition construct :: "int list \<Rightarrow> env \<Rightarrow> env" where
  "construct data e = e\<lparr>state := load_state data e, stats := zero_stats\<rparr>"

section \<open>The helpers nested in \<^verbatim>\<open>step\<close>\<close>

definition set_phase :: "string \<Rightarrow> env \<Rightarrow> env" where
  "set_phase p e = e\<lparr>state := (state e)\<lparr>phase := p\<rparr>\<rparr>"

definition set_index :: "nat \<Rightarrow> env \<Rightarrow> env" where
  "set_index i e = e\<lparr>state := (state e)\<lparr>index := i\<rparr>\<rparr>"

definition f_write :: "token \<Rightarrow> env \<Rightarrow> env" where
  "f_write t e = e\<lparr>sink := sink e @ [t], trace := trace e @ [Append t]\<rparr>"

text \<open>
  \<^verbatim>\<open>if write: f.write(', ')\<close> followed by \<^verbatim>\<open>f.write(f"{v}")\<close>; the flag is set by the
  caller.
\<close>

definition emit :: "bool \<Rightarrow> int \<Rightarrow> env \<Rightarrow> env" where
  "emit w v e = f_write (Val v) (if w then f_write Sep e else e)"

definition count_output :: "env \<Rightarrow> env" where
  "count_output e = e\<lparr>stats := (stats e)\<lparr>values_output := values_output (stats e) + 1\<rparr>\<rparr>"

definition count_comparison :: "env \<Rightarrow> env" where
  "count_comparison e = e\<lparr>stats := (stats e)\<lparr>comparisons := comparisons (stats e) + 1\<rparr>\<rparr>"

text \<open>
  The \<^verbatim>\<open>while\<close> loop of \<^verbatim>\<open>output_till\<close>. \<open>i\<close> is the local \<^verbatim>\<open>index\<close>, \<open>w\<close> the
  flag \<^verbatim>\<open>write\<close>. Reading \<^verbatim>\<open>self.data[index]\<close> beyond the list raises.
\<close>

function output_loop ::
  "int list \<Rightarrow> nat \<Rightarrow> int \<Rightarrow> nat \<Rightarrow> bool \<Rightarrow> env \<Rightarrow> (error + nat) \<times> bool \<times> env" where
  "output_loop data cnt max_v i w e =
     (if i < cnt then
        (if length data \<le> i then (Inl IndexError, w, e)
         else if data ! i < max_v then
           output_loop data cnt max_v (i + 1) True
             (count_output (count_comparison (emit w (data ! i) e)))
         else (Inr i, w, e))
      else (Inr i, w, e))"
  by pat_completeness auto
termination
  by (relation "measure (\<lambda>(data, cnt, max_v, i, w, e). cnt - i)") auto

definition output_till ::
  "int list \<Rightarrow> int \<Rightarrow> bool \<Rightarrow> bool \<Rightarrow> env \<Rightarrow> (error + string) \<times> bool \<times> env" where
  "output_till data max_v include w e =
     (let cnt = len (state e) in
      case output_loop data cnt max_v (index (state e)) w e of
        (Inl x, w1, e1) \<Rightarrow> (Inl x, w1, e1)
      | (Inr i, w1, e1) \<Rightarrow>
          (let e2 = set_index i e1;
               w2 = (include \<or> w1);
               e3 = (if include then count_output (emit w1 max_v e2) else e2)
           in (Inr (if cnt \<le> i then ''DONE'' else ''LOCK''), w2, e3)))"

text \<open>
  The loop \<^verbatim>\<open>for i in inbox_value: self.state['phase'] = output_till(i, True)\<close>.
\<close>

fun output_each :: "int list \<Rightarrow> int list \<Rightarrow> bool \<Rightarrow> env \<Rightarrow> (error + unit) \<times> bool \<times> env" where
  "output_each data [] w e = (Inr (), w, e)"
| "output_each data (v # vs) w e =
     (case output_till data v True w e of
        (Inl x, w1, e1) \<Rightarrow> (Inl x, w1, e1)
      | (Inr p, w1, e1) \<Rightarrow> output_each data vs w1 (set_phase p e1))"

definition read_inbox :: "env \<Rightarrow> message option \<times> env" where
  "read_inbox e =
     (case inbox e of
        None \<Rightarrow> (None, e)
      | Some m \<Rightarrow>
          (Some m,
           e\<lparr>stats := (stats e)\<lparr>messages_received := messages_received (stats e) + 1\<rparr>,
             inbox := None,
             trace := trace e @ [Unlink m]\<rparr>))"

definition write_msg :: "message \<Rightarrow> env \<Rightarrow> env" where
  "write_msg m e =
     e\<lparr>outbox := Some m,
       stats := (stats e)\<lparr>messages_sent := messages_sent (stats e) + 1\<rparr>,
       trace := trace e @ [Send m]\<rparr>"

text \<open>The slice \<^verbatim>\<open>xs[i:j]\<close> for non-negative bounds.\<close>

definition slice :: "int list \<Rightarrow> nat \<Rightarrow> nat \<Rightarrow> int list" where
  "slice xs i j = take (j - i) (drop i xs)"

section \<open>\<^verbatim>\<open>MergeWorker.step\<close>\<close>

text \<open>
  Lines 119 to 121: the first character of the received type is the separator flag
  and is cut off. Subscripting an empty string raises.
\<close>

definition strip_flag :: "message option \<Rightarrow> error + bool \<times> message option" where
  "strip_flag ib =
     (case ib of
        None \<Rightarrow> Inr (False, None)
      | Some m \<Rightarrow>
          (case msg_type m of
             [] \<Rightarrow> Inl IndexError
           | c # rest \<Rightarrow> Inr (c = CHR ''T'', Some (m\<lparr>msg_type := rest\<rparr>))))"

definition has_type :: "message option \<Rightarrow> string \<Rightarrow> bool" where
  "has_type ib t = (case ib of None \<Rightarrow> False | Some m \<Rightarrow> msg_type m = t)"

text \<open>Lines 135 to 142: the worker moves first.\<close>

definition branch_first :: "int list \<Rightarrow> env \<Rightarrow> message option \<times> env" where
  "branch_first data e =
     (let nextindex = min (len (state e)) (index (state e) + 11);
          msg = \<lparr>msg_type = ''UNLO'', vals = slice data (index (state e)) nextindex\<rparr>;
          e1 = set_index nextindex e
      in if len (state e1) \<le> nextindex
         then (Some (msg\<lparr>msg_type := ''DONE''\<rparr>), set_phase ''DONE'' e1)
         else (Some msg, set_phase ''LOCK'' e1))"

text \<open>
  Lines 143 to 150: the peer is done. \<^verbatim>\<open>self.data[-1]\<close> raises on an empty list.
\<close>

definition branch_done ::
  "int list \<Rightarrow> int list \<Rightarrow> bool \<Rightarrow> env \<Rightarrow> (error + message option) \<times> bool \<times> env" where
  "branch_done data inbox_value w e =
     (if phase (state e) = ''DONE'' then (Inr None, w, e)
      else
        (case output_each data inbox_value w e of
           (Inl x, w1, e1) \<Rightarrow> (Inl x, w1, e1)
         | (Inr u, w1, e1) \<Rightarrow>
             (if data = [] then (Inl IndexError, w1, e1)
              else
                (case output_till data (last data + 1) False w1 e1 of
                   (Inl x, w2, e2) \<Rightarrow> (Inl x, w2, e2)
                 | (Inr p, w2, e2) \<Rightarrow>
                     (Inr (Some \<lparr>msg_type = ''DONE'', vals = []\<rparr>), w2, set_phase p e2)))))"

text \<open>Lines 152 to 163: neither first nor finished.\<close>

definition branch_else ::
  "int list \<Rightarrow> int list option \<Rightarrow> bool \<Rightarrow> env \<Rightarrow> (error + message option) \<times> bool \<times> env" where
  "branch_else data inbox_value w e =
     (case output_each data (case inbox_value of None \<Rightarrow> [] | Some vs \<Rightarrow> vs) w e of
        (Inl x, w1, e1) \<Rightarrow> (Inl x, w1, e1)
      | (Inr u, w1, e1) \<Rightarrow>
          (let nextindex = min (len (state e1)) (index (state e1) + 11);
               msg = \<lparr>msg_type = ''UNLO'', vals = slice data (index (state e1)) nextindex\<rparr>;
               e2 = set_index nextindex e1
           in if phase (state e2) \<noteq> ''DONE''
              then (Inr (Some msg), w1, set_phase ''LOCK'' e2)
              else (Inr (Some (msg\<lparr>msg_type := ''DONE''\<rparr>)), w1, e2)))"

text \<open>
  Lines 165 to 179: persist, stamp the separator flag on the message type, send, and
  report whether more work remains.
\<close>

definition finish :: "bool \<Rightarrow> message option \<Rightarrow> message option \<Rightarrow> env \<Rightarrow> (error + bool) \<times> env" where
  "finish w msg ib e =
     (let e1 = save_state e in
      case msg of
        None \<Rightarrow> (Inl AttributeError, e1)
      | Some m \<Rightarrow>
          (let m1 = m\<lparr>msg_type := (if w then CHR ''T'' else CHR ''F'') # msg_type m\<rparr> in
           if phase (state e1) = ''DONE'' then (Inr False, write_msg m1 e1)
           else
             (let e2 = write_msg m1 e1 in
              if has_type ib (phase (state e2)) \<and> phase (state e2) = ''DONE''
              then (Inr False, e2)
              else (Inr True, e2))))"

text \<open>
  Line 124: a worker that is locked and has received a reply becomes unlocked.
\<close>

definition unlock :: "env \<Rightarrow> env" where
  "unlock e = (if phase (state e) = ''LOCK'' then set_phase ''UNLOCK'' e else e)"

text \<open>
  Lines 129 to 163: the choice between the three branches. \<open>ib\<close> is the received
  message after the flag has been cut off its type, \<open>w\<close> the flag \<^verbatim>\<open>write\<close>.
\<close>

definition dispatch ::
  "int list \<Rightarrow> message option \<Rightarrow> bool \<Rightarrow> env \<Rightarrow> (error + message option) \<times> bool \<times> env" where
  "dispatch data ib w e =
     (let inbox_value = map_option vals ib in
      if phase (state e) = ''INIT'' \<and> ib = None
      then (case branch_first data e of (msg, e1) \<Rightarrow> (Inr msg, w, e1))
      else if has_type ib ''DONE''
      then branch_done data (case inbox_value of None \<Rightarrow> [] | Some vs \<Rightarrow> vs) w e
      else branch_else data inbox_value w e)"

definition step :: "int list \<Rightarrow> env \<Rightarrow> (error + bool) \<times> env" where
  "step data e0 =
     (let e = e0\<lparr>state := load_state data e0\<rparr> in
      if phase (state e) = ''DONE'' then (Inr False, e)
      else
        (case read_inbox e of
           (raw, e1) \<Rightarrow>
             (case strip_flag raw of
                Inl x \<Rightarrow> (Inl x, e1)
              | Inr (w, ib) \<Rightarrow>
                  if phase (state e1) = ''LOCK'' \<and> \<not> (has_type ib ''DONE'' \<or> has_type ib ''UNLO'')
                  then (Inr True, e1)
                  else
                    (case dispatch data ib w (unlock e1) of
                       (Inl x, w1, e3) \<Rightarrow> (Inl x, e3)
                     | (Inr msg, w1, e3) \<Rightarrow> finish w1 msg ib e3))))"

section \<open>Two workers connected crosswise, and \<^verbatim>\<open>Coordinator.run\<close>\<close>

text \<open>
  The files of a merge job: one state file per worker, the two mailbox files
  \<^verbatim>\<open>A_to_B.msg\<close> and \<^verbatim>\<open>B_to_A.msg\<close>, and the shared output file; together with the two
  worker objects (\<^verbatim>\<open>self.state\<close> and \<^verbatim>\<open>self.stats\<close> of each) and the log of all file
  operations. Worker A reads \<^verbatim>\<open>B_to_A.msg\<close> and writes \<^verbatim>\<open>A_to_B.msg\<close>; worker B does the
  opposite.
\<close>

record system =
  mem_a :: pstate
  stats_a :: wstats
  mem_b :: pstate
  stats_b :: wstats
  file_a :: "pstate option"
  file_b :: "pstate option"
  a_to_b :: "message option"
  b_to_a :: "message option"
  out :: "token list"
  oplog :: "event list"

datatype wid = A | B

fun view :: "wid \<Rightarrow> system \<Rightarrow> env" where
  "view A s = \<lparr>state = mem_a s, stats = stats_a s, state_file = file_a s,
               inbox = b_to_a s, outbox = a_to_b s, sink = out s, trace = oplog s\<rparr>"
| "view B s = \<lparr>state = mem_b s, stats = stats_b s, state_file = file_b s,
               inbox = a_to_b s, outbox = b_to_a s, sink = out s, trace = oplog s\<rparr>"

fun put :: "wid \<Rightarrow> env \<Rightarrow> system \<Rightarrow> system" where
  "put A e s = s\<lparr>mem_a := state e, stats_a := stats e, file_a := state_file e,
                 b_to_a := inbox e, a_to_b := outbox e, out := sink e, oplog := trace e\<rparr>"
| "put B e s = s\<lparr>mem_b := state e, stats_b := stats e, file_b := state_file e,
                 a_to_b := inbox e, b_to_a := outbox e, out := sink e, oplog := trace e\<rparr>"

definition worker_step :: "wid \<Rightarrow> int list \<Rightarrow> system \<Rightarrow> (error + bool) \<times> system" where
  "worker_step i data s = (case step data (view i s) of (r, e) \<Rightarrow> (r, put i e s))"

text \<open>
  A job started on no files: no state file, no mailbox file, an empty output file, and
  two freshly constructed workers.
\<close>

definition fresh :: "int list \<Rightarrow> int list \<Rightarrow> system" where
  "fresh data_a data_b =
     \<lparr>mem_a = initial_state data_a, stats_a = zero_stats,
      mem_b = initial_state data_b, stats_b = zero_stats,
      file_a = None, file_b = None, a_to_b = None, b_to_a = None, out = [], oplog = []\<rparr>"

text \<open>
  One pass of \<^verbatim>\<open>if active[i]: active[i] = worker.step(); steps += 1\<close> for one worker.
\<close>

definition turn ::
  "wid \<Rightarrow> int list \<Rightarrow> bool \<Rightarrow> nat \<Rightarrow> system \<Rightarrow> (error + bool \<times> nat) \<times> system" where
  "turn i data active steps s =
     (if active then
        (case worker_step i data s of
           (Inl x, s1) \<Rightarrow> (Inl x, s1)
         | (Inr r, s1) \<Rightarrow> (Inr (r, steps + 1), s1))
      else (Inr (active, steps), s))"

text \<open>The body of the \<^verbatim>\<open>while\<close> loop: the \<^verbatim>\<open>for\<close> loop over both workers.\<close>

definition round ::
  "int list \<Rightarrow> int list \<Rightarrow> bool \<Rightarrow> bool \<Rightarrow> nat \<Rightarrow> system
     \<Rightarrow> (error + bool \<times> bool \<times> nat) \<times> system" where
  "round data_a data_b act_a act_b steps s =
     (case turn A data_a act_a steps s of
        (Inl x, s1) \<Rightarrow> (Inl x, s1)
      | (Inr (act_a1, steps1), s1) \<Rightarrow>
          (case turn B data_b act_b steps1 s1 of
             (Inl x, s2) \<Rightarrow> (Inl x, s2)
           | (Inr (act_b1, steps2), s2) \<Rightarrow> (Inr (act_a1, act_b1, steps2), s2)))"

function run_loop ::
  "int list \<Rightarrow> int list \<Rightarrow> int \<Rightarrow> bool \<Rightarrow> bool \<Rightarrow> nat \<Rightarrow> system
     \<Rightarrow> (error + bool \<times> bool \<times> nat) \<times> system" where
  "run_loop data_a data_b max_steps act_a act_b steps s =
     (if (act_a \<or> act_b) \<and> int steps < max_steps then
        (case round data_a data_b act_a act_b steps s of
           (Inl x, s1) \<Rightarrow> (Inl x, s1)
         | (Inr (act_a1, act_b1, steps1), s1) \<Rightarrow>
             run_loop data_a data_b max_steps act_a1 act_b1 steps1 s1)
      else (Inr (act_a, act_b, steps), s))"
  by pat_completeness auto
termination
  by (relation "measure (\<lambda>(data_a, data_b, max_steps, act_a, act_b, steps, s).
                   nat (max_steps - int steps))")
     (auto simp: round_def turn_def split: if_splits prod.splits sum.splits)

text \<open>The dictionary returned by \<^verbatim>\<open>Coordinator.run\<close>.\<close>

record run_result =
  success :: bool
  total_steps :: nat
  res_stats_a :: wstats
  res_stats_b :: wstats

definition run :: "int list \<Rightarrow> int list \<Rightarrow> int \<Rightarrow> system \<Rightarrow> (error + run_result) \<times> system" where
  "run data_a data_b max_steps s =
     (case run_loop data_a data_b max_steps True True 0 s of
        (Inl x, s1) \<Rightarrow> (Inl x, s1)
      | (Inr (act_a, act_b, steps), s1) \<Rightarrow>
          (Inr \<lparr>success = \<not> (act_a \<or> act_b), total_steps = steps,
                res_stats_a = stats_a s1, res_stats_b = stats_b s1\<rparr>, s1))"

section \<open>Notions used to state the properties\<close>

text \<open>
  A persisted state is well formed for a run when its cursor is within the run, its
  stored length is the length of the run, and its phase is one of the four phases.
\<close>

definition wf_pstate :: "int list \<Rightarrow> pstate \<Rightarrow> bool" where
  "wf_pstate data s =
     (index s \<le> len s \<and> len s = length data \<and>
      phase s \<in> {''INIT'', ''LOCK'', ''UNLOCK'', ''DONE''})"

text \<open>
  Two workers are connected to the same files, with the same history of file
  operations; their attributes \<^verbatim>\<open>self.state\<close> and \<^verbatim>\<open>self.stats\<close> may differ.
\<close>

definition files_eq :: "env \<Rightarrow> env \<Rightarrow> bool" where
  "files_eq e1 e2 =
     (state_file e1 = state_file e2 \<and> inbox e1 = inbox e2 \<and> outbox e1 = outbox e2 \<and>
      sink e1 = sink e2 \<and> trace e1 = trace e2)"

definition same_run :: "env \<Rightarrow> env \<Rightarrow> bool" where
  "same_run e1 e2 = (state e1 = state e2 \<and> files_eq e1 e2)"

text \<open>The file operations that one call of \<^verbatim>\<open>step\<close> performs, in order.\<close>

definition events_of :: "int list \<Rightarrow> env \<Rightarrow> event list" where
  "events_of data e = drop (length (trace e)) (trace (snd (step data e)))"

text \<open>
  The effect of one file operation on the files, and the files left behind when the
  process dies after the first \<open>k\<close> file operations of a step.
\<close>

fun apply_event :: "event \<Rightarrow> env \<Rightarrow> env" where
  "apply_event (Unlink m) e = e\<lparr>inbox := None, trace := trace e @ [Unlink m]\<rparr>"
| "apply_event (Append t) e = e\<lparr>sink := sink e @ [t], trace := trace e @ [Append t]\<rparr>"
| "apply_event (Save s) e = e\<lparr>state_file := Some s, trace := trace e @ [Save s]\<rparr>"
| "apply_event (Send m) e = e\<lparr>outbox := Some m, trace := trace e @ [Send m]\<rparr>"

definition replay :: "event list \<Rightarrow> env \<Rightarrow> env" where
  "replay evs e = foldl (\<lambda>x ev. apply_event ev x) e evs"

definition crash_after :: "nat \<Rightarrow> int list \<Rightarrow> env \<Rightarrow> env" where
  "crash_after k data e = replay (take k (events_of data e)) e"

text \<open>How a helper may change the worker's state and which files it leaves alone.\<close>

definition advanced :: "env \<Rightarrow> env \<Rightarrow> bool" where
  "advanced e e1 =
     (len (state e1) = len (state e) \<and> index (state e) \<le> index (state e1) \<and>
      (index (state e1) \<le> len (state e) \<or> index (state e1) = index (state e)) \<and>
      state_file e1 = state_file e \<and> inbox e1 = inbox e \<and> outbox e1 = outbox e)"

text \<open>
  The peer has announced that it is done: the inbox file holds a message whose type,
  after the flag character, is \<^verbatim>\<open>DONE\<close>.
\<close>

definition peer_done :: "env \<Rightarrow> bool" where
  "peer_done e = (case strip_flag (inbox e) of Inl x \<Rightarrow> False | Inr (w, ib) \<Rightarrow> has_type ib ''DONE'')"

text \<open>
  File operations other than saving the state and sending a message, and the relation
  between two configurations of which the second has performed only such operations
  since the first.
\<close>

fun is_local :: "event \<Rightarrow> bool" where
  "is_local (Unlink m) = True"
| "is_local (Append t) = True"
| "is_local (Save s) = False"
| "is_local (Send m) = False"

definition grows :: "env \<Rightarrow> env \<Rightarrow> bool" where
  "grows e e1 = (\<exists>evs. trace e1 = trace e @ evs \<and> list_all is_local evs)"

text \<open>A run of twelve values, and a freshly constructed worker for it on no files.\<close>

definition twelve :: "int list" where
  "twelve = [0, 1, 2, 3, 4, 5, 6, 7, 8, 9, 10, 11]"

definition first_env :: env where
  "first_env =
     \<lparr>state = initial_state twelve, stats = zero_stats, state_file = None,
      inbox = None, outbox = None, sink = [], trace = []\<rparr>"

text \<open>The type of the message in the inbox file, if there is one, is not empty.\<close>

definition readable :: "env \<Rightarrow> bool" where
  "readable e = (case inbox e of None \<Rightarrow> True | Some m \<Rightarrow> msg_type m \<noteq> [])"

text \<open>
  The files of the second configuration result from those of the first by performing
  some file operations.
\<close>

definition tracks :: "env \<Rightarrow> env \<Rightarrow> bool" where
  "tracks e e1 = (\<exists>evs. files_eq e1 (replay evs e))"

text \<open>Example configurations used to instantiate the theorems.\<close>

definition finished_env :: env where
  "finished_env =
     \<lparr>state = \<lparr>phase = ''INIT'', index = 0, len = 2\<rparr>, stats = zero_stats,
      state_file = Some \<lparr>phase = ''DONE'', index = 2, len = 2\<rparr>,
      inbox = Some \<lparr>msg_type = ''TDONE'', vals = []\<rparr>, outbox = None,
      sink = [Val 1, Sep, Val 2], trace = []\<rparr>"

definition waiting_env :: env where
  "waiting_env =
     \<lparr>state = \<lparr>phase = ''INIT'', index = 0, len = 12\<rparr>, stats = zero_stats,
      state_file = Some \<lparr>phase = ''LOCK'', index = 11, len = 12\<rparr>,
      inbox = None, outbox = Some \<lparr>msg_type = ''FUNLO'', vals = [0, 1, 2, 3, 4, 5, 6, 7, 8, 9, 10]\<rparr>,
      sink = [], trace = []\<rparr>"

definition replied_env :: env where
  "replied_env =
     \<lparr>state = \<lparr>phase = ''LOCK'', index = 2, len = 3\<rparr>,
      stats = \<lparr>comparisons = 4, messages_sent = 1, messages_received = 0, values_output = 0\<rparr>,
      state_file = Some \<lparr>phase = ''LOCK'', index = 2, len = 3\<rparr>,
      inbox = Some \<lparr>msg_type = ''TUNLO'', vals = [4, 6]\<rparr>, outbox = None,
      sink = [Val 1], trace = []\<rparr>"

definition empty_second_env :: env where
  "empty_second_env =
     \<lparr>state = initial_state [], stats = zero_stats, state_file = None,
      inbox = Some \<lparr>msg_type = ''FDONE'', vals = [3]\<rparr>, outbox = None,
      sink = [], trace = []\<rparr>"

section \<open>Basic facts about the helpers\<close>

lemmas env_defs = set_phase_def set_index_def f_write_def emit_def count_output_def
  count_comparison_def save_state_def write_msg_def

declare output_loop.simps [simp del]

declare run_loop.simps [simp del]

lemma output_loop_frame:
  "output_loop data cnt max_v i w e = (r, w1, e1) \<Longrightarrow>
     state e1 = state e \<and> state_file e1 = state_file e \<and> inbox e1 = inbox e \<and> outbox e1 = outbox e"
proof (induction data cnt max_v i w e rule: output_loop.induct)
  case (1 data cnt max_v i w e)
  show ?case
  proof (cases "i < cnt \<and> \<not> length data \<le> i \<and> data ! i < max_v")
    case True
    with "1.prems" have "output_loop data cnt max_v (i + 1) True
        (count_output (count_comparison (emit w (data ! i) e))) = (r, w1, e1)"
      by (subst (asm) output_loop.simps) simp
    from "1.IH" [OF _ _ _ this] True show ?thesis
      by (simp add: env_defs)
  next
    case False
    with "1.prems" show ?thesis
      by (subst (asm) output_loop.simps) (auto split: if_splits)
  qed
qed

lemma output_loop_index:
  "output_loop data cnt max_v i w e = (Inr j, w1, e1) \<Longrightarrow> i \<le> j \<and> (j \<le> cnt \<or> j = i)"
proof (induction data cnt max_v i w e rule: output_loop.induct)
  case (1 data cnt max_v i w e)
  show ?case
  proof (cases "i < cnt \<and> \<not> length data \<le> i \<and> data ! i < max_v")
    case True
    with "1.prems" have "output_loop data cnt max_v (i + 1) True
        (count_output (count_comparison (emit w (data ! i) e))) = (Inr j, w1, e1)"
      by (subst (asm) output_loop.simps) simp
    from "1.IH" [OF _ _ _ this] True show ?thesis
      by auto
  next
    case False
    with "1.prems" show ?thesis
      by (subst (asm) output_loop.simps) (auto split: if_splits)
  qed
qed

lemma output_loop_no_error:
  "cnt \<le> length data \<Longrightarrow> \<exists>j. fst (output_loop data cnt max_v i w e) = Inr j"
proof (induction data cnt max_v i w e rule: output_loop.induct)
  case (1 data cnt max_v i w e)
  show ?case
  proof (cases "i < cnt \<and> \<not> length data \<le> i \<and> data ! i < max_v")
    case True
    from "1.IH" [OF _ _ _ "1.prems"] True show ?thesis
      by (subst output_loop.simps) simp
  next
    case False
    with "1.prems" show ?thesis
      by (subst output_loop.simps) auto
  qed
qed

lemma step_cases [case_names Done Bad_flag Locked Raise Finish]:
  fixes data :: "int list" and e :: env
  defines "e0 \<equiv> e\<lparr>state := load_state data e\<rparr>"
  obtains
    (Done) "phase (load_state data e) = ''DONE''" "step data e = (Inr False, e0)"
  | (Bad_flag) raw e1 x where "phase (load_state data e) \<noteq> ''DONE''"
      "read_inbox e0 = (raw, e1)" "strip_flag raw = Inl x" "step data e = (Inl x, e1)"
  | (Locked) raw e1 w ib where "phase (load_state data e) = ''LOCK''"
      "read_inbox e0 = (raw, e1)" "strip_flag raw = Inr (w, ib)"
      "\<not> (has_type ib ''DONE'' \<or> has_type ib ''UNLO'')" "step data e = (Inr True, e1)"
  | (Raise) raw e1 w ib x w1 e3 where "phase (load_state data e) \<noteq> ''DONE''"
      "read_inbox e0 = (raw, e1)" "strip_flag raw = Inr (w, ib)"
      "phase (load_state data e) = ''LOCK'' \<longrightarrow> has_type ib ''DONE'' \<or> has_type ib ''UNLO''"
      "dispatch data ib w (unlock e1) = (Inl x, w1, e3)" "step data e = (Inl x, e3)"
  | (Finish) raw e1 w ib msg w1 e3 where "phase (load_state data e) \<noteq> ''DONE''"
      "read_inbox e0 = (raw, e1)" "strip_flag raw = Inr (w, ib)"
      "phase (load_state data e) = ''LOCK'' \<longrightarrow> has_type ib ''DONE'' \<or> has_type ib ''UNLO''"
      "dispatch data ib w (unlock e1) = (Inr msg, w1, e3)" "step data e = finish w1 msg ib e3"
proof -
  obtain raw e1 where r: "read_inbox e0 = (raw, e1)" by (metis surj_pair)
  have st1: "state e1 = load_state data e"
    using r by (auto simp: read_inbox_def e0_def split: option.splits)
  show thesis
  proof (cases "phase (load_state data e) = ''DONE''")
    case True
    then show thesis using Done by (simp add: step_def e0_def)
  next
    case nd: False
    show thesis
    proof (cases "strip_flag raw")
      case (Inl x)
      with nd r show thesis using Bad_flag [of raw e1 x] by (simp add: step_def e0_def)
    next
      case (Inr p)
      obtain w ib where p: "p = (w, ib)" by (metis surj_pair)
      show thesis
      proof (cases "phase (load_state data e) = ''LOCK'' \<and> \<not> (has_type ib ''DONE'' \<or> has_type ib ''UNLO'')")
        case True
        with nd r Inr p st1 show thesis using Locked [of raw e1 w ib]
          by (simp add: step_def e0_def)
      next
        case nl: False
        obtain m w1 e3 where d: "dispatch data ib w (unlock e1) = (m, w1, e3)"
          by (metis prod_cases3)
        show thesis
        proof (cases m)
          case (Inl x)
          with nd r Inr p st1 nl d show thesis using Raise [of raw e1 w ib x w1 e3]
            by (auto simp: step_def e0_def)
        next
          case (Inr msg)
          with nd r \<open>strip_flag raw = Inr p\<close> p st1 nl d show thesis
            using Finish [of raw e1 w ib msg w1 e3]
            by (auto simp: step_def e0_def)
        qed
      qed
    qed
  qed
qed

section \<open>How a step moves the cursor and the phase\<close>

lemma f_write_fields [simp]:
  "state (f_write t e) = state e" "stats (f_write t e) = stats e"
  "state_file (f_write t e) = state_file e" "inbox (f_write t e) = inbox e"
  "outbox (f_write t e) = outbox e" "sink (f_write t e) = sink e @ [t]"
  "trace (f_write t e) = trace e @ [Append t]"
  by (simp_all add: f_write_def)

lemma emit_fields [simp]:
  "state (emit w v e) = state e" "stats (emit w v e) = stats e"
  "state_file (emit w v e) = state_file e" "inbox (emit w v e) = inbox e"
  "outbox (emit w v e) = outbox e"
  "sink (emit w v e) = sink e @ (if w then [Sep] else []) @ [Val v]"
  "trace (emit w v e) = trace e @ (if w then [Append Sep] else []) @ [Append (Val v)]"
  by (simp_all add: emit_def)

lemma count_output_fields [simp]:
  "state (count_output e) = state e" "state_file (count_output e) = state_file e"
  "inbox (count_output e) = inbox e" "outbox (count_output e) = outbox e"
  "sink (count_output e) = sink e" "trace (count_output e) = trace e"
  by (simp_all add: count_output_def)

lemma count_comparison_fields [simp]:
  "state (count_comparison e) = state e" "state_file (count_comparison e) = state_file e"
  "inbox (count_comparison e) = inbox e" "outbox (count_comparison e) = outbox e"
  "sink (count_comparison e) = sink e" "trace (count_comparison e) = trace e"
  by (simp_all add: count_comparison_def)

lemma set_index_fields [simp]:
  "state (set_index i e) = (state e)\<lparr>index := i\<rparr>" "stats (set_index i e) = stats e"
  "state_file (set_index i e) = state_file e" "inbox (set_index i e) = inbox e"
  "outbox (set_index i e) = outbox e" "sink (set_index i e) = sink e"
  "trace (set_index i e) = trace e"
  by (simp_all add: set_index_def)

lemma set_phase_fields [simp]:
  "state (set_phase p e) = (state e)\<lparr>phase := p\<rparr>" "stats (set_phase p e) = stats e"
  "state_file (set_phase p e) = state_file e" "inbox (set_phase p e) = inbox e"
  "outbox (set_phase p e) = outbox e" "sink (set_phase p e) = sink e"
  "trace (set_phase p e) = trace e"
  by (simp_all add: set_phase_def)

lemma save_state_fields [simp]:
  "state (save_state e) = state e" "stats (save_state e) = stats e"
  "state_file (save_state e) = Some (state e)" "inbox (save_state e) = inbox e"
  "outbox (save_state e) = outbox e" "sink (save_state e) = sink e"
  "trace (save_state e) = trace e @ [Save (state e)]"
  by (simp_all add: save_state_def)

lemma write_msg_fields [simp]:
  "state (write_msg m e) = state e"
  "state_file (write_msg m e) = state_file e" "inbox (write_msg m e) = inbox e"
  "outbox (write_msg m e) = Some m" "sink (write_msg m e) = sink e"
  "trace (write_msg m e) = trace e @ [Send m]"
  by (simp_all add: write_msg_def)

lemma unlock_fields [simp]:
  "index (state (unlock e)) = index (state e)" "len (state (unlock e)) = len (state e)"
  "stats (unlock e) = stats e"
  "state_file (unlock e) = state_file e" "inbox (unlock e) = inbox e"
  "outbox (unlock e) = outbox e" "sink (unlock e) = sink e"
  "trace (unlock e) = trace e"
  by (simp_all add: unlock_def)

lemma advanced_refl: "advanced e e"
  by (simp add: advanced_def)

lemma advanced_trans: "advanced e e1 \<Longrightarrow> advanced e1 e2 \<Longrightarrow> advanced e e2"
  by (auto simp: advanced_def)

lemma advanced_set_phase: "advanced e e1 \<Longrightarrow> advanced e (set_phase p e1)"
  by (simp add: advanced_def)

lemma output_till_advanced:
  assumes "output_till data v inc w e = (r, w1, e1)"
  shows "advanced e e1"
proof -
  obtain q w0 x where o: "output_loop data (len (state e)) v (index (state e)) w e = (q, w0, x)"
    by (metis prod_cases3)
  note fr = output_loop_frame [OF o]
  show ?thesis
  proof (cases q)
    case (Inl err)
    with assms o fr show ?thesis by (simp add: output_till_def advanced_def)
  next
    case (Inr j)
    with o have "index (state e) \<le> j \<and> (j \<le> len (state e) \<or> j = index (state e))"
      using output_loop_index by blast
    with assms o fr Inr show ?thesis
      by (cases inc) (auto simp: output_till_def Let_def advanced_def)
  qed
qed

lemma output_till_phase:
  assumes "output_till data v inc w e = (Inr p, w1, e1)"
  shows "p = (if len (state e1) \<le> index (state e1) then ''DONE'' else ''LOCK'') \<and>
         phase (state e1) = phase (state e) \<and> len (state e1) = len (state e)"
proof -
  obtain q w0 x where o: "output_loop data (len (state e)) v (index (state e)) w e = (q, w0, x)"
    by (metis prod_cases3)
  note fr = output_loop_frame [OF o]
  from assms o fr show ?thesis
    by (cases q; cases inc) (auto simp: output_till_def Let_def)
qed

lemma output_each_advanced:
  "output_each data vs w e = (r, w1, e1) \<Longrightarrow> advanced e e1"
proof (induction vs arbitrary: w e)
  case Nil
  then show ?case by (simp add: advanced_refl)
next
  case (Cons v vs)
  obtain q w0 x where t: "output_till data v True w e = (q, w0, x)"
    by (metis prod_cases3)
  note a = output_till_advanced [OF t]
  show ?case
  proof (cases q)
    case (Inl err)
    with Cons.prems t a show ?thesis by simp
  next
    case (Inr p)
    with Cons.prems t have "output_each data vs w0 (set_phase p x) = (r, w1, e1)" by simp
    from Cons.IH [OF this] a show ?thesis
      by (auto simp: advanced_def)
  qed
qed

text \<open>
  After the loop over the received values, the phase is the one it was when no value
  was received, and otherwise tells whether the cursor has reached the end.
\<close>

lemma output_each_phase:
  "output_each data vs w e = (Inr u, w1, e1) \<Longrightarrow>
     phase (state e1) =
       (if vs = [] then phase (state e)
        else if len (state e1) \<le> index (state e1) then ''DONE'' else ''LOCK'')"
proof (induction vs arbitrary: w e)
  case Nil
  then show ?case by simp
next
  case (Cons v vs)
  obtain q w0 x where t: "output_till data v True w e = (q, w0, x)"
    by (metis prod_cases3)
  show ?case
  proof (cases q)
    case (Inl err)
    with Cons.prems t show ?thesis by simp
  next
    case (Inr p)
    with Cons.prems t have r: "output_each data vs w0 (set_phase p x) = (Inr u, w1, e1)" by simp
    note ph = output_till_phase [OF t [unfolded Inr]]
    show ?thesis
    proof (cases "vs = []")
      case True
      with r ph show ?thesis by auto
    next
      case False
      with Cons.IH [OF r] show ?thesis by simp
    qed
  qed
qed


lemma branch_first_advanced: "branch_first data e = (msg, e1) \<Longrightarrow>
    len (state e1) = len (state e) \<and> state_file e1 = state_file e \<and>
    index (state e1) = min (len (state e)) (index (state e) + 11) \<and>
    phase (state e1) \<in> {''DONE'', ''LOCK''}"
  by (auto simp: branch_first_def Let_def split: if_splits)

lemma branch_done_advanced:
  assumes "branch_done data vs w e = (r, w1, e1)"
  shows "advanced e e1"
proof (cases "phase (state e) = ''DONE''")
  case True
  with assms show ?thesis by (simp add: branch_done_def advanced_refl)
next
  case False
  obtain q w0 x where o: "output_each data vs w e = (q, w0, x)" by (metis prod_cases3)
  note a = output_each_advanced [OF o]
  show ?thesis
  proof (cases "\<exists>u. q = Inr u \<and> data \<noteq> []")
    case False
    with assms o \<open>phase (state e) \<noteq> ''DONE''\<close> a show ?thesis
      by (cases q) (auto simp: branch_done_def)
  next
    case True
    obtain q2 w2 y where t: "output_till data (last data + 1) False w0 x = (q2, w2, y)"
      by (metis prod_cases3)
    note b = advanced_trans [OF a output_till_advanced [OF t]]
    from True assms o t \<open>phase (state e) \<noteq> ''DONE''\<close> b show ?thesis
      by (cases q2) (auto simp: branch_done_def intro: advanced_set_phase)
  qed
qed

lemma branch_done_phase:
  assumes "branch_done data vs w e = (Inr msg, w1, e1)"
  shows "phase (state e1) \<in> {''DONE'', ''LOCK''}"
proof (cases "phase (state e) = ''DONE''")
  case True
  with assms show ?thesis by (simp add: branch_done_def)
next
  case nd: False
  obtain q w0 x where o: "output_each data vs w e = (q, w0, x)" by (metis prod_cases3)
  obtain q2 w2 y where t: "output_till data (last data + 1) False w0 x = (q2, w2, y)"
    by (metis prod_cases3)
  show ?thesis
  proof (cases q)
    case (Inl err)
    with assms o nd show ?thesis by (simp add: branch_done_def)
  next
    case (Inr u)
    show ?thesis
    proof (cases "data = []")
      case True
      with assms o nd Inr show ?thesis by (simp add: branch_done_def)
    next
      case ne: False
      show ?thesis
      proof (cases q2)
        case (Inl err)
        with assms o nd Inr ne t show ?thesis by (simp add: branch_done_def)
      next
        case (Inr p)
        with assms o nd \<open>q = Inr u\<close> ne t have e1: "e1 = set_phase p y"
          by (simp add: branch_done_def)
        from output_till_phase [OF t [unfolded Inr]] have "p = ''DONE'' \<or> p = ''LOCK''"
          by (simp split: if_splits)
        with e1 show ?thesis by auto
      qed
    qed
  qed
qed

lemma branch_else_advanced:
  assumes "branch_else data iv w e = (r, w1, e1)"
  shows "len (state e1) = len (state e) \<and> state_file e1 = state_file e \<and>
         (index (state e) \<le> len (state e) \<longrightarrow>
            index (state e) \<le> index (state e1) \<and> index (state e1) \<le> len (state e))"
proof -
  let ?vs = "case iv of None \<Rightarrow> [] | Some vs \<Rightarrow> vs"
  obtain q w0 x where o: "output_each data ?vs w e = (q, w0, x)" by (metis prod_cases3)
  note a = output_each_advanced [OF o]
  from assms o a show ?thesis
    by (cases q) (auto simp: branch_else_def Let_def advanced_def split: if_splits)
qed

lemma branch_else_phase:
  assumes "branch_else data iv w e = (Inr msg, w1, e1)"
  shows "phase (state e1) \<in> {''DONE'', ''LOCK''}"
proof -
  let ?vs = "case iv of None \<Rightarrow> [] | Some vs \<Rightarrow> vs"
  obtain q w0 x where o: "output_each data ?vs w e = (q, w0, x)" by (metis prod_cases3)
  from assms o show ?thesis
    by (cases q) (auto simp: branch_else_def Let_def split: if_splits)
qed

lemma dispatch_cases [case_names First Peer_done Other]:
  obtains
    (First) "phase (state e) = ''INIT''" "ib = None"
      "dispatch data ib w e = (Inr (fst (branch_first data e)), w, snd (branch_first data e))"
  | (Peer_done) m where "ib = Some m" "msg_type m = ''DONE''"
      "dispatch data ib w e = branch_done data (vals m) w e"
  | (Other) "\<not> has_type ib ''DONE''" "\<not> (phase (state e) = ''INIT'' \<and> ib = None)"
      "dispatch data ib w e = branch_else data (map_option vals ib) w e"
proof (cases ib)
  case None
  then show thesis using First Other
    by (cases "phase (state e) = ''INIT''")
       (simp_all add: dispatch_def Let_def has_type_def split_beta)
next
  case (Some m)
  then show thesis using Peer_done [of m] Other
    by (cases "msg_type m = ''DONE''") (simp_all add: dispatch_def Let_def has_type_def)
qed

lemma dispatch_state_file:
  assumes "dispatch data ib w e = (r, w1, e1)"
  shows "state_file e1 = state_file e \<and> len (state e1) = len (state e)"
proof (cases rule: dispatch_cases [of e ib data w])
  case First
  with assms branch_first_advanced [of data e "fst (branch_first data e)" e1]
  show ?thesis by auto
next
  case (Peer_done m)
  with assms branch_done_advanced [of data "vals m" w e r w1 e1]
  show ?thesis by (simp add: advanced_def)
next
  case Other
  with assms branch_else_advanced [of data "map_option vals ib" w e r w1 e1]
  show ?thesis by simp
qed

lemma dispatch_wf:
  assumes "dispatch data ib w e = (Inr msg, w1, e1)" and "index (state e) \<le> len (state e)"
    and "phase (state e) \<noteq> ''DONE''"
  shows "index (state e) \<le> index (state e1) \<and> index (state e1) \<le> len (state e) \<and>
         phase (state e1) \<in> {''DONE'', ''LOCK''}"
proof (cases rule: dispatch_cases [of e ib data w])
  case First
  with assms branch_first_advanced [of data e "fst (branch_first data e)" e1]
  show ?thesis by auto
next
  case (Peer_done m)
  with assms branch_done_advanced [of data "vals m" w e "Inr msg" w1 e1]
    branch_done_phase [of data "vals m" w e msg w1 e1]
  show ?thesis by (auto simp: advanced_def)
next
  case Other
  with assms branch_else_advanced [of data "map_option vals ib" w e "Inr msg" w1 e1]
    branch_else_phase [of data "map_option vals ib" w e msg w1 e1]
  show ?thesis by simp
qed

lemma read_inbox_fields:
  "read_inbox e = (raw, e1) \<Longrightarrow>
     raw = inbox e \<and> state e1 = state e \<and> state_file e1 = state_file e \<and>
     outbox e1 = outbox e \<and> sink e1 = sink e \<and> inbox e1 = None \<and>
     trace e1 = trace e @ (case inbox e of None \<Rightarrow> [] | Some m \<Rightarrow> [Unlink m])"
  by (auto simp: read_inbox_def split: option.splits)

lemma finish_state:
  "state (snd (finish w msg ib e)) = state e \<and>
   state_file (snd (finish w msg ib e)) = Some (state e)"
  by (cases msg) (simp_all add: finish_def Let_def)

lemma unlock_phase:
  "phase (state (unlock e)) = (if phase (state e) = ''LOCK'' then ''UNLOCK'' else phase (state e))"
  by (simp add: unlock_def)

section \<open>The file operations of a step\<close>

lemma grows_refl: "grows e e"
  by (simp add: grows_def)

lemma grows_trans: "grows e e1 \<Longrightarrow> grows e1 e2 \<Longrightarrow> grows e e2"
  by (auto simp: grows_def)

lemma grows_same: "trace e1 = trace e \<Longrightarrow> grows e e1"
  by (simp add: grows_def)

lemma grows_emit: "grows e (emit w v e)"
  by (simp add: grows_def)

lemma output_loop_grows:
  "output_loop data cnt max_v i w e = (r, w1, e1) \<Longrightarrow> grows e e1"
proof (induction data cnt max_v i w e rule: output_loop.induct)
  case (1 data cnt max_v i w e)
  show ?case
  proof (cases "i < cnt \<and> \<not> length data \<le> i \<and> data ! i < max_v")
    case True
    with "1.prems" have "output_loop data cnt max_v (i + 1) True
        (count_output (count_comparison (emit w (data ! i) e))) = (r, w1, e1)"
      by (subst (asm) output_loop.simps) simp
    from "1.IH" [OF _ _ _ this] True
    have "grows (count_output (count_comparison (emit w (data ! i) e))) e1" by simp
    moreover have "grows e (count_output (count_comparison (emit w (data ! i) e)))"
      by (simp add: grows_def)
    ultimately show ?thesis by (rule grows_trans [rotated])
  next
    case False
    with "1.prems" show ?thesis
      by (subst (asm) output_loop.simps) (auto split: if_splits simp: grows_refl)
  qed
qed

lemma output_till_grows:
  assumes "output_till data v inc w e = (r, w1, e1)"
  shows "grows e e1"
proof -
  obtain q w0 x where o: "output_loop data (len (state e)) v (index (state e)) w e = (q, w0, x)"
    by (metis prod_cases3)
  note g = output_loop_grows [OF o]
  show ?thesis
  proof (cases q)
    case (Inl err)
    with assms o g show ?thesis by (simp add: output_till_def)
  next
    case (Inr j)
    with assms o have e1: "e1 = (if inc then count_output (emit w0 v (set_index j x)) else set_index j x)"
      by (simp add: output_till_def Let_def)
    have "grows x e1" unfolding e1 by (simp add: grows_def)
    with g show ?thesis by (rule grows_trans)
  qed
qed

lemma output_each_grows:
  "output_each data vs w e = (r, w1, e1) \<Longrightarrow> grows e e1"
proof (induction vs arbitrary: w e)
  case Nil
  then show ?case by (simp add: grows_refl)
next
  case (Cons v vs)
  obtain q w0 x where t: "output_till data v True w e = (q, w0, x)"
    by (metis prod_cases3)
  note g = output_till_grows [OF t]
  show ?case
  proof (cases q)
    case (Inl err)
    with Cons.prems t g show ?thesis by simp
  next
    case (Inr p)
    with Cons.prems t have "output_each data vs w0 (set_phase p x) = (r, w1, e1)" by simp
    from Cons.IH [OF this] have "grows x e1" by (simp add: grows_def)
    with g show ?thesis by (rule grows_trans)
  qed
qed

lemma branch_first_grows: "branch_first data e = (msg, e1) \<Longrightarrow> grows e e1"
  by (auto simp: branch_first_def Let_def grows_def split: if_splits)

lemma branch_done_grows:
  assumes "branch_done data vs w e = (r, w1, e1)"
  shows "grows e e1"
proof (cases "phase (state e) = ''DONE''")
  case True
  with assms show ?thesis by (simp add: branch_done_def grows_refl)
next
  case nd: False
  obtain q w0 x where o: "output_each data vs w e = (q, w0, x)" by (metis prod_cases3)
  note a = output_each_grows [OF o]
  show ?thesis
  proof (cases "\<exists>u. q = Inr u \<and> data \<noteq> []")
    case False
    with assms o nd a show ?thesis
      by (cases q) (auto simp: branch_done_def)
  next
    case True
    obtain q2 w2 y where t: "output_till data (last data + 1) False w0 x = (q2, w2, y)"
      by (metis prod_cases3)
    note b = grows_trans [OF a output_till_grows [OF t]]
    show ?thesis
    proof (cases q2)
      case (Inl err)
      with True assms o t nd b show ?thesis by (auto simp: branch_done_def)
    next
      case (Inr p)
      with True assms o t nd have "e1 = set_phase p y" by (auto simp: branch_done_def)
      with b show ?thesis by (simp add: grows_def)
    qed
  qed
qed

lemma branch_else_grows:
  assumes "branch_else data iv w e = (r, w1, e1)"
  shows "grows e e1"
proof -
  let ?vs = "case iv of None \<Rightarrow> [] | Some vs \<Rightarrow> vs"
  obtain q w0 x where o: "output_each data ?vs w e = (q, w0, x)" by (metis prod_cases3)
  note a = output_each_grows [OF o]
  show ?thesis
  proof (cases q)
    case (Inl err)
    with assms o a show ?thesis by (simp add: branch_else_def)
  next
    case (Inr u)
    with assms o have "trace e1 = trace x"
      by (auto simp: branch_else_def Let_def split: if_splits)
    with a show ?thesis by (simp add: grows_def)
  qed
qed

lemma dispatch_grows:
  assumes "dispatch data ib w e = (r, w1, e1)"
  shows "grows e e1"
proof (cases rule: dispatch_cases [of e ib data w])
  case First
  with assms branch_first_grows [of data e "fst (branch_first data e)" e1]
  show ?thesis by auto
next
  case (Peer_done m)
  with assms branch_done_grows [of data "vals m" w e r w1 e1]
  show ?thesis by simp
next
  case Other
  with assms branch_else_grows [of data "map_option vals ib" w e r w1 e1]
  show ?thesis by simp
qed


lemma read_inbox_grows: "read_inbox e = (raw, e1) \<Longrightarrow> grows e e1"
  by (auto simp: read_inbox_def grows_def split: option.splits)

lemma finish_trace:
  "trace (snd (finish w msg ib e)) =
     trace e @ Save (state e) #
       (case msg of None \<Rightarrow> []
        | Some m \<Rightarrow> [Send (m\<lparr>msg_type := (if w then CHR ''T'' else CHR ''F'') # msg_type m\<rparr>)])"
  by (cases msg) (simp_all add: finish_def Let_def)

lemma finish_outbox:
  "outbox (snd (finish w (Some m) ib e)) =
     Some (m\<lparr>msg_type := (if w then CHR ''T'' else CHR ''F'') # msg_type m\<rparr>)"
  by (simp add: finish_def Let_def)

lemma local_no_send: "list_all is_local evs \<Longrightarrow> Send m \<notin> set evs"
  by (induction evs) auto

lemma grows_events:
  assumes "grows e (snd (step data e))"
  shows "list_all is_local (events_of data e)"
  using assms by (auto simp: grows_def events_of_def)

text \<open>
  The file operations of a step that reaches the end of \<^verbatim>\<open>step\<close>: those of reading the
  inbox and of the branch taken, then the save, then the send.
\<close>

lemma step_finish_events:
  assumes "read_inbox (e\<lparr>state := load_state data e\<rparr>) = (raw, e1)"
    and "dispatch data ib w (unlock e1) = (Inr msg, w1, e3)"
    and "step data e = finish w1 msg ib e3"
  shows "\<exists>pre. list_all is_local pre \<and> trace e3 = trace e @ pre \<and>
           events_of data e = pre @ Save (state e3) #
             (case msg of None \<Rightarrow> []
              | Some m \<Rightarrow> [Send (m\<lparr>msg_type := (if w1 then CHR ''T'' else CHR ''F'') # msg_type m\<rparr>)])"
proof -
  have "grows (e\<lparr>state := load_state data e\<rparr>) e1" using assms(1) by (rule read_inbox_grows)
  then have "grows e (unlock e1)" by (simp add: grows_def)
  from grows_trans [OF this dispatch_grows [OF assms(2)]]
  obtain pre where pre: "trace e3 = trace e @ pre" "list_all is_local pre"
    by (auto simp: grows_def)
  then show ?thesis
    using assms(3) finish_trace [of w1 msg ib e3] by (auto simp: events_of_def)
qed

lemma step_events:
  assumes "Send m \<in> set (events_of data e)"
  shows "\<exists>pre s. events_of data e = pre @ [Save s, Send m] \<and> list_all is_local pre \<and>
           state_file (snd (step data e)) = Some s \<and> outbox (snd (step data e)) = Some m"
proof (cases rule: step_cases [of data e])
  case Done
  then have "events_of data e = []" by (simp add: events_of_def)
  with assms show ?thesis by simp
next
  case (Bad_flag raw e1 x)
  from read_inbox_grows [OF Bad_flag(2)] Bad_flag(4) have "grows e (snd (step data e))"
    by (simp add: grows_def)
  from local_no_send [OF grows_events [OF this]] assms show ?thesis by simp
next
  case (Locked raw e1 w ib)
  from read_inbox_grows [OF Locked(2)] Locked(5) have "grows e (snd (step data e))"
    by (simp add: grows_def)
  from local_no_send [OF grows_events [OF this]] assms show ?thesis by simp
next
  case (Raise raw e1 w ib x w1 e3)
  have "grows (e\<lparr>state := load_state data e\<rparr>) e1" using Raise(2) by (rule read_inbox_grows)
  then have "grows e (unlock e1)" by (simp add: grows_def)
  from grows_trans [OF this dispatch_grows [OF Raise(5)]] Raise(6)
  have "grows e (snd (step data e))" by simp
  from local_no_send [OF grows_events [OF this]] assms show ?thesis by simp
next
  case (Finish raw e1 w ib msg w1 e3)
  from step_finish_events [OF Finish(2) Finish(5) Finish(6)]
  obtain pre where pre: "list_all is_local pre"
    "events_of data e = pre @ Save (state e3) #
       (case msg of None \<Rightarrow> []
        | Some m \<Rightarrow> [Send (m\<lparr>msg_type := (if w1 then CHR ''T'' else CHR ''F'') # msg_type m\<rparr>)])"
    by blast
  show ?thesis
  proof (cases msg)
    case None
    with pre assms local_no_send [OF pre(1)] show ?thesis by simp
  next
    case (Some m0)
    let ?m1 = "m0\<lparr>msg_type := (if w1 then CHR ''T'' else CHR ''F'') # msg_type m0\<rparr>"
    from Some pre assms local_no_send [OF pre(1), of m] have m: "m = ?m1" by simp
    from Some pre m have "events_of data e = pre @ [Save (state e3), Send m]" by simp
    moreover have "state_file (snd (step data e)) = Some (state e3)"
      using Finish(6) finish_state [of w1 msg ib e3] by simp
    moreover have "outbox (snd (step data e)) = Some m"
      using Finish(6) Some finish_outbox [of w1 m0 ib e3] m by simp
    ultimately show ?thesis using pre(1) by blast
  qed
qed


lemma length_slice: "length (slice xs i (min l (i + 11))) \<le> 11"
  by (simp add: slice_def)

lemma branch_first_msg:
  "branch_first data e = (msg, e1) \<Longrightarrow>
     \<exists>m. msg = Some m \<and> msg_type m \<in> {''UNLO'', ''DONE''} \<and>
       vals m = slice data (index (state e)) (min (len (state e)) (index (state e) + 11)) \<and>
       index (state e1) = min (len (state e)) (index (state e) + 11)"
  by (auto simp: branch_first_def Let_def split: if_splits)

lemma branch_done_msg:
  assumes "branch_done data vs w e = (Inr (Some m), w1, e1)"
  shows "m = \<lparr>msg_type = ''DONE'', vals = []\<rparr>"
proof (cases "phase (state e) = ''DONE''")
  case True
  with assms show ?thesis by (simp add: branch_done_def)
next
  case nd: False
  obtain q w0 x where o: "output_each data vs w e = (q, w0, x)" by (metis prod_cases3)
  obtain q2 w2 y where t: "output_till data (last data + 1) False w0 x = (q2, w2, y)"
    by (metis prod_cases3)
  show ?thesis
  proof (cases q)
    case (Inl err)
    with assms o nd show ?thesis by (simp add: branch_done_def)
  next
    case (Inr u)
    show ?thesis
    proof (cases "data = []")
      case True
      with assms o nd Inr show ?thesis by (simp add: branch_done_def)
    next
      case ne: False
      with assms o nd Inr t show ?thesis
        by (cases q2) (simp_all add: branch_done_def)
    qed
  qed
qed

lemma branch_else_msg:
  assumes "branch_else data iv w e = (Inr (Some m), w1, e1)"
  shows "msg_type m \<in> {''UNLO'', ''DONE''} \<and>
         (\<exists>i. index (state e) \<le> i \<and> vals m = slice data i (min (len (state e)) (i + 11)) \<and>
              index (state e1) = min (len (state e)) (i + 11))"
proof -
  let ?vs = "case iv of None \<Rightarrow> [] | Some vs \<Rightarrow> vs"
  obtain q w0 x where o: "output_each data ?vs w e = (q, w0, x)" by (metis prod_cases3)
  note a = output_each_advanced [OF o]
  show ?thesis
  proof (cases q)
    case (Inl err)
    with assms o show ?thesis by (simp add: branch_else_def)
  next
    case (Inr u)
    let ?n = "min (len (state x)) (index (state x) + 11)"
    from assms o Inr have "msg_type m \<in> {''UNLO'', ''DONE''}"
      and "vals m = slice data (index (state x)) ?n" and "index (state e1) = ?n"
      by (auto simp: branch_else_def Let_def split: if_splits)
    with a show ?thesis by (auto simp: advanced_def)
  qed
qed

lemma dispatch_msg:
  assumes "dispatch data ib w e = (Inr (Some m), w1, e1)"
  shows "msg_type m \<in> {''UNLO'', ''DONE''} \<and>
         (if has_type ib ''DONE'' then vals m = [] \<and> msg_type m = ''DONE''
          else \<exists>i. index (state e) \<le> i \<and>
                 vals m = slice data i (min (len (state e)) (i + 11)) \<and>
                 index (state e1) = min (len (state e)) (i + 11))"
proof (cases rule: dispatch_cases [of e ib data w])
  case First
  with assms branch_first_msg [of data e "fst (branch_first data e)" e1]
  show ?thesis by (auto simp: has_type_def)
next
  case (Peer_done m0)
  with assms branch_done_msg [of data "vals m0" w e m w1 e1]
  show ?thesis by (simp add: has_type_def)
next
  case Other
  with assms branch_else_msg [of data "map_option vals ib" w e m w1 e1]
  show ?thesis by simp
qed

section \<open>A restarted worker behaves like the worker it replaces\<close>

lemma same_run_loop:
  "same_run e1 e2 \<Longrightarrow>
     fst (output_loop data cnt max_v i w e1) = fst (output_loop data cnt max_v i w e2) \<and>
     fst (snd (output_loop data cnt max_v i w e1)) = fst (snd (output_loop data cnt max_v i w e2)) \<and>
     same_run (snd (snd (output_loop data cnt max_v i w e1)))
              (snd (snd (output_loop data cnt max_v i w e2)))"
proof (induction data cnt max_v i w e1 arbitrary: e2 rule: output_loop.induct)
  case (1 data cnt max_v i w e)
  show ?case
  proof (cases "i < cnt \<and> \<not> length data \<le> i \<and> data ! i < max_v")
    case True
    have "same_run (count_output (count_comparison (emit w (data ! i) e)))
                   (count_output (count_comparison (emit w (data ! i) e2)))"
      using "1.prems" by (simp add: same_run_def files_eq_def env_defs)
    from "1.IH" [OF _ _ _ this] True show ?thesis
      by (subst (1 2 3 4 5 6) output_loop.simps) simp
  next
    case False
    with "1.prems" show ?thesis
      by (subst (1 2 3 4 5 6) output_loop.simps) auto
  qed
qed

lemma same_run_till:
  assumes "same_run e1 e2"
  shows "fst (output_till data v inc w e1) = fst (output_till data v inc w e2) \<and>
     fst (snd (output_till data v inc w e1)) = fst (snd (output_till data v inc w e2)) \<and>
     same_run (snd (snd (output_till data v inc w e1))) (snd (snd (output_till data v inc w e2)))"
proof -
  obtain r1 w1 x1 where o1: "output_loop data (len (state e1)) v (index (state e1)) w e1 = (r1, w1, x1)"
    by (metis prod_cases3)
  obtain r2 w2 x2 where o2: "output_loop data (len (state e2)) v (index (state e2)) w e2 = (r2, w2, x2)"
    by (metis prod_cases3)
  have st: "state e1 = state e2" using assms by (simp add: same_run_def)
  from same_run_loop [OF assms, of data "len (state e1)" v "index (state e1)" w] o1 o2 st
  have eq: "r1 = r2" "w1 = w2" "same_run x1 x2" by simp_all
  then show ?thesis using o1 o2 st
    by (cases r2) (auto simp: output_till_def Let_def same_run_def files_eq_def env_defs)
qed

lemma same_run_each:
  "same_run e1 e2 \<Longrightarrow>
     fst (output_each data vs w e1) = fst (output_each data vs w e2) \<and>
     fst (snd (output_each data vs w e1)) = fst (snd (output_each data vs w e2)) \<and>
     same_run (snd (snd (output_each data vs w e1))) (snd (snd (output_each data vs w e2)))"
proof (induction vs arbitrary: w e1 e2)
  case Nil
  then show ?case by simp
next
  case (Cons v vs)
  obtain r1 w1 x1 where o1: "output_till data v True w e1 = (r1, w1, x1)"
    by (metis prod_cases3)
  obtain r2 w2 x2 where o2: "output_till data v True w e2 = (r2, w2, x2)"
    by (metis prod_cases3)
  from same_run_till [OF Cons.prems, of data v True w] o1 o2
  have eq: "r1 = r2" "w1 = w2" "same_run x1 x2" by simp_all
  show ?case
  proof (cases r2)
    case (Inl x)
    with eq o1 o2 show ?thesis by simp
  next
    case (Inr p)
    from eq(3) have "same_run (set_phase p x1) (set_phase p x2)"
      by (simp add: same_run_def files_eq_def env_defs)
    from Cons.IH [OF this, of w2] Inr eq o1 o2 show ?thesis by simp
  qed
qed


lemma same_run_first:
  "same_run e1 e2 \<Longrightarrow>
     fst (branch_first data e1) = fst (branch_first data e2) \<and>
     same_run (snd (branch_first data e1)) (snd (branch_first data e2))"
  by (simp add: branch_first_def Let_def same_run_def files_eq_def env_defs)

lemma same_run_done:
  assumes "same_run e1 e2"
  shows "fst (branch_done data vs w e1) = fst (branch_done data vs w e2) \<and>
     fst (snd (branch_done data vs w e1)) = fst (snd (branch_done data vs w e2)) \<and>
     same_run (snd (snd (branch_done data vs w e1))) (snd (snd (branch_done data vs w e2)))"
proof -
  obtain r1 w1 x1 where o1: "output_each data vs w e1 = (r1, w1, x1)"
    by (metis prod_cases3)
  obtain r2 w2 x2 where o2: "output_each data vs w e2 = (r2, w2, x2)"
    by (metis prod_cases3)
  from same_run_each [OF assms, of data vs w] o1 o2
  have eq: "r1 = r2" "w1 = w2" "same_run x1 x2" by simp_all
  obtain q1 v1 y1 where t1: "output_till data (last data + 1) False w2 x1 = (q1, v1, y1)"
    by (metis prod_cases3)
  obtain q2 v2 y2 where t2: "output_till data (last data + 1) False w2 x2 = (q2, v2, y2)"
    by (metis prod_cases3)
  from same_run_till [OF eq(3), of data "last data + 1" False w2] t1 t2
  have eq2: "q1 = q2" "v1 = v2" "same_run y1 y2" by simp_all
  have st: "state e1 = state e2" using assms by (simp add: same_run_def)
  show ?thesis
  proof (cases "phase (state e2) = ''DONE''")
    case True
    with assms st show ?thesis by (simp add: branch_done_def)
  next
    case False
    show ?thesis
    proof (cases r2)
      case (Inl x)
      with False st eq o1 o2 show ?thesis by (simp add: branch_done_def)
    next
      case (Inr u)
      show ?thesis
      proof (cases q2)
        case (Inl x)
        with Inr False st eq o1 o2 eq2 t1 t2 show ?thesis by (simp add: branch_done_def)
      next
        case (Inr p)
        from eq2(3) have "same_run (set_phase p y1) (set_phase p y2)"
          by (simp add: same_run_def files_eq_def env_defs)
        with Inr \<open>r2 = Inr u\<close> False st eq o1 o2 eq2 t1 t2 show ?thesis
          by (simp add: branch_done_def)
      qed
    qed
  qed
qed

lemma same_run_else:
  assumes "same_run e1 e2"
  shows "fst (branch_else data iv w e1) = fst (branch_else data iv w e2) \<and>
     fst (snd (branch_else data iv w e1)) = fst (snd (branch_else data iv w e2)) \<and>
     same_run (snd (snd (branch_else data iv w e1))) (snd (snd (branch_else data iv w e2)))"
proof -
  let ?vs = "case iv of None \<Rightarrow> [] | Some vs \<Rightarrow> vs"
  obtain r1 w1 x1 where o1: "output_each data ?vs w e1 = (r1, w1, x1)"
    by (metis prod_cases3)
  obtain r2 w2 x2 where o2: "output_each data ?vs w e2 = (r2, w2, x2)"
    by (metis prod_cases3)
  from same_run_each [OF assms, of data ?vs w] o1 o2
  have eq: "r1 = r2" "w1 = w2" "same_run x1 x2" by simp_all
  then show ?thesis using o1 o2
    by (cases r2) (auto simp: branch_else_def Let_def same_run_def files_eq_def env_defs)
qed

lemma same_run_finish:
  "same_run e1 e2 \<Longrightarrow>
     fst (finish w msg ib e1) = fst (finish w msg ib e2) \<and>
     same_run (snd (finish w msg ib e1)) (snd (finish w msg ib e2))"
  by (cases msg) (simp_all add: finish_def Let_def same_run_def files_eq_def env_defs)

lemma same_run_read:
  "same_run e1 e2 \<Longrightarrow>
     fst (read_inbox e1) = fst (read_inbox e2) \<and>
     same_run (snd (read_inbox e1)) (snd (read_inbox e2))"
  by (cases "inbox e2") (simp_all add: read_inbox_def same_run_def files_eq_def)


lemma same_run_dispatch:
  assumes "same_run e1 e2"
  shows "fst (dispatch data ib w e1) = fst (dispatch data ib w e2) \<and>
     fst (snd (dispatch data ib w e1)) = fst (snd (dispatch data ib w e2)) \<and>
     same_run (snd (snd (dispatch data ib w e1))) (snd (snd (dispatch data ib w e2)))"
proof -
  have st: "state e1 = state e2" using assms by (simp add: same_run_def)
  consider (first) "phase (state e2) = ''INIT'' \<and> ib = None"
    | (peer) "\<not> (phase (state e2) = ''INIT'' \<and> ib = None)" "has_type ib ''DONE''"
    | (other) "\<not> (phase (state e2) = ''INIT'' \<and> ib = None)" "\<not> has_type ib ''DONE''"
    by blast
  then show ?thesis
  proof cases
    case first
    then have "dispatch data ib w e1 = (Inr (fst (branch_first data e1)), w, snd (branch_first data e1))"
      "dispatch data ib w e2 = (Inr (fst (branch_first data e2)), w, snd (branch_first data e2))"
      using st by (simp_all add: dispatch_def Let_def split_beta)
    then show ?thesis using same_run_first [OF assms, of data] by simp
  next
    case peer
    then have "dispatch data ib w e1 =
        branch_done data (case map_option vals ib of None \<Rightarrow> [] | Some vs \<Rightarrow> vs) w e1"
      "dispatch data ib w e2 =
        branch_done data (case map_option vals ib of None \<Rightarrow> [] | Some vs \<Rightarrow> vs) w e2"
      using st by (cases ib; simp add: dispatch_def Let_def has_type_def)+
    then show ?thesis using same_run_done [OF assms] by simp
  next
    case other
    then have "dispatch data ib w e1 = branch_else data (map_option vals ib) w e1"
      "dispatch data ib w e2 = branch_else data (map_option vals ib) w e2"
      using st by (cases ib; simp add: dispatch_def Let_def has_type_def)+
    then show ?thesis using same_run_else [OF assms] by simp
  qed
qed

lemma same_run_unlock: "same_run e1 e2 \<Longrightarrow> same_run (unlock e1) (unlock e2)"
  by (simp add: same_run_def files_eq_def unlock_def env_defs)

lemma same_run_step:
  assumes "files_eq e1 e2"
  shows "fst (step data e1) = fst (step data e2) \<and>
         same_run (snd (step data e1)) (snd (step data e2))"
proof -
  let ?a1 = "e1\<lparr>state := load_state data e1\<rparr>" and ?a2 = "e2\<lparr>state := load_state data e2\<rparr>"
  have a: "same_run ?a1 ?a2"
    using assms by (simp add: same_run_def files_eq_def load_state_def)
  then have sa: "state ?a1 = state ?a2" by (simp add: same_run_def)
  obtain raw b1 where r1: "read_inbox ?a1 = (raw, b1)" by (metis surj_pair)
  obtain raw2 b2 where r2: "read_inbox ?a2 = (raw2, b2)" by (metis surj_pair)
  from same_run_read [OF a] r1 r2 have b: "raw2 = raw" "same_run b1 b2" by simp_all
  then have sb: "state b1 = state b2" by (simp add: same_run_def)
  show ?thesis
  proof (cases "phase (state ?a2) = ''DONE''")
    case True
    with a sa show ?thesis by (simp add: step_def Let_def)
  next
    case nd: False
    show ?thesis
    proof (cases "strip_flag raw")
      case (Inl x)
      with nd sa r1 r2 b show ?thesis by (simp add: step_def Let_def)
    next
      case (Inr p)
      obtain w ib where p: "p = (w, ib)" by (metis surj_pair)
      show ?thesis
      proof (cases "phase (state b2) = ''LOCK'' \<and> \<not> (has_type ib ''DONE'' \<or> has_type ib ''UNLO'')")
        case True
        with nd sa r1 r2 b sb Inr p show ?thesis by (simp add: step_def Let_def)
      next
        case nl: False
        have c: "same_run (unlock b1) (unlock b2)" using b(2) by (rule same_run_unlock)
        obtain m1 w1 d1 where o1: "dispatch data ib w (unlock b1) = (m1, w1, d1)" by (metis prod_cases3)
        obtain m2 w2 d2 where o2: "dispatch data ib w (unlock b2) = (m2, w2, d2)" by (metis prod_cases3)
        from same_run_dispatch [OF c, of data ib w] o1 o2
        have d: "m1 = m2" "w1 = w2" "same_run d1 d2" by simp_all
        have s1: "step data e1 = (case m1 of Inl x \<Rightarrow> (Inl x, d1) | Inr msg \<Rightarrow> finish w1 msg ib d1)"
          using nd sa r1 Inr p nl sb o1 by (auto simp: step_def Let_def split: sum.splits)
        have s2: "step data e2 = (case m2 of Inl x \<Rightarrow> (Inl x, d2) | Inr msg \<Rightarrow> finish w2 msg ib d2)"
          using nd r2 b Inr p nl o2 by (auto simp: step_def Let_def split: sum.splits)
        show ?thesis
          using d same_run_finish [OF d(3)] by (cases m2) (simp_all add: s1 s2)
      qed
    qed
  qed
qed


section \<open>Where a step cannot raise\<close>

lemma output_till_no_error:
  assumes "len (state e) \<le> length data"
  shows "\<exists>p. fst (output_till data v inc w e) = Inr p"
proof -
  obtain q w0 x where o: "output_loop data (len (state e)) v (index (state e)) w e = (q, w0, x)"
    by (metis prod_cases3)
  from output_loop_no_error [OF assms, of v "index (state e)" w e] o obtain j where "q = Inr j"
    by auto
  with o show ?thesis by (simp add: output_till_def Let_def)
qed

lemma output_each_no_error:
  "len (state e) \<le> length data \<Longrightarrow> \<exists>u. fst (output_each data vs w e) = Inr u"
proof (induction vs arbitrary: w e)
  case Nil
  then show ?case by simp
next
  case (Cons v vs)
  obtain q w0 x where t: "output_till data v True w e = (q, w0, x)"
    by (metis prod_cases3)
  from output_till_no_error [OF Cons.prems, of v True w] t obtain p where q: "q = Inr p"
    by auto
  from output_till_advanced [OF t] Cons.prems have "len (state (set_phase p x)) \<le> length data"
    by (simp add: advanced_def)
  from Cons.IH [OF this, of w0] t q show ?case by simp
qed

lemma branch_done_no_error:
  assumes "len (state e) \<le> length data" and "data \<noteq> []" and "phase (state e) \<noteq> ''DONE''"
  shows "\<exists>m. fst (branch_done data vs w e) = Inr (Some m)"
proof -
  obtain q w0 x where o: "output_each data vs w e = (q, w0, x)" by (metis prod_cases3)
  from output_each_no_error [OF assms(1), of vs w] o obtain u where q: "q = Inr u" by auto
  from output_each_advanced [OF o] assms(1) have l: "len (state x) \<le> length data"
    by (simp add: advanced_def)
  obtain q2 w2 y where t: "output_till data (last data + 1) False w0 x = (q2, w2, y)"
    by (metis prod_cases3)
  from output_till_no_error [OF l, of "last data + 1" False w0] t obtain p where "q2 = Inr p"
    by auto
  with assms o q t show ?thesis by (simp add: branch_done_def)
qed

lemma branch_else_no_error:
  assumes "len (state e) \<le> length data"
  shows "\<exists>m. fst (branch_else data iv w e) = Inr (Some m)"
proof -
  let ?vs = "case iv of None \<Rightarrow> [] | Some vs \<Rightarrow> vs"
  obtain q w0 x where o: "output_each data ?vs w e = (q, w0, x)" by (metis prod_cases3)
  from output_each_no_error [OF assms(1), of ?vs w] o obtain u where q: "q = Inr u" by auto
  with o show ?thesis by (simp add: branch_else_def Let_def)
qed

lemma dispatch_no_error:
  assumes "len (state e) \<le> length data" and "data \<noteq> []" and "phase (state e) \<noteq> ''DONE''"
  shows "\<exists>m. fst (dispatch data ib w e) = Inr (Some m)"
proof (cases rule: dispatch_cases [of e ib data w])
  case First
  with branch_first_msg [of data e "fst (branch_first data e)" "snd (branch_first data e)"]
  show ?thesis by auto
next
  case (Peer_done m0)
  with branch_done_no_error [OF assms, of "vals m0" w] show ?thesis by simp
next
  case Other
  with branch_else_no_error [OF assms(1), of "map_option vals ib" w] show ?thesis by simp
qed

text \<open>
  On a well-formed persisted state, a non-empty run and a received message whose type
  is not the empty string, a step does not raise.
\<close>

lemma step_no_error:
  assumes "wf_pstate data (load_state data e)" and "data \<noteq> []" and "readable e"
  shows "\<exists>b. fst (step data e) = Inr b"
proof (cases rule: step_cases [of data e])
  case Done
  then show ?thesis by auto
next
  case (Bad_flag raw e1 x)
  from read_inbox_fields [OF Bad_flag(2)] have "raw = inbox e" by simp
  with Bad_flag(3) assms(3) show ?thesis
    by (auto simp: strip_flag_def readable_def split: option.splits list.splits)
next
  case (Locked raw e1 w ib)
  then show ?thesis by auto
next
  case (Raise raw e1 w ib x w1 e3)
  note r = read_inbox_fields [OF Raise(2)]
  have "len (state (unlock e1)) \<le> length data" using r assms(1) by (simp add: wf_pstate_def)
  moreover have "phase (state (unlock e1)) \<noteq> ''DONE''"
    using r Raise(1) by (simp add: unlock_phase)
  ultimately show ?thesis
    using dispatch_no_error [of "unlock e1" data ib w] assms(2) Raise(5) by auto
next
  case (Finish raw e1 w ib msg w1 e3)
  note r = read_inbox_fields [OF Finish(2)]
  have "len (state (unlock e1)) \<le> length data" using r assms(1) by (simp add: wf_pstate_def)
  moreover have "phase (state (unlock e1)) \<noteq> ''DONE''"
    using r Finish(1) by (simp add: unlock_phase)
  ultimately obtain m where "msg = Some m"
    using dispatch_no_error [of "unlock e1" data ib w] assms(2) Finish(5) by auto
  with Finish(6) show ?thesis by (auto simp: finish_def Let_def)
qed

section \<open>Replaying the file operations of a step\<close>

lemma replay_Nil [simp]: "replay [] e = e"
  by (simp add: replay_def)

lemma replay_append: "replay (evs @ evs') e = replay evs' (replay evs e)"
  by (simp add: replay_def)

lemma replay_single [simp]: "replay [ev] e = apply_event ev e"
  by (simp add: replay_def)

lemma apply_event_files_eq:
  "files_eq e1 e2 \<Longrightarrow> files_eq (apply_event ev e1) (apply_event ev e2)"
  by (cases ev) (simp_all add: files_eq_def)

lemma replay_files_eq:
  "files_eq e1 e2 \<Longrightarrow> files_eq (replay evs e1) (replay evs e2)"
proof (induction evs arbitrary: e1 e2)
  case Nil
  then show ?case by simp
next
  case (Cons ev evs)
  from Cons.IH [OF apply_event_files_eq [OF Cons.prems, of ev]] show ?case
    by (simp add: replay_def)
qed

lemma trace_apply_event: "trace (apply_event ev e) = trace e @ [ev]"
  by (cases ev) simp_all

lemma trace_replay: "trace (replay evs e) = trace e @ evs"
proof (induction evs arbitrary: e)
  case Nil
  then show ?case by simp
next
  case (Cons ev evs)
  have "replay (ev # evs) e = replay evs (apply_event ev e)" by (simp add: replay_def)
  with Cons.IH [of "apply_event ev e"] show ?case by (simp add: trace_apply_event)
qed

lemma files_eq_refl: "files_eq e e"
  by (simp add: files_eq_def)

lemma files_eq_trans: "files_eq e1 e2 \<Longrightarrow> files_eq e2 e3 \<Longrightarrow> files_eq e1 e3"
  by (simp add: files_eq_def)

lemma tracks_refl: "tracks e e"
  unfolding tracks_def using files_eq_refl [of e] replay_Nil [of e] by metis

lemma tracks_trans:
  assumes "tracks e e1" and "tracks e1 e2"
  shows "tracks e e2"
proof -
  from assms obtain evs evs' where a: "files_eq e1 (replay evs e)" and b: "files_eq e2 (replay evs' e1)"
    by (auto simp: tracks_def)
  from files_eq_trans [OF b replay_files_eq [OF a, of evs']]
  have "files_eq e2 (replay (evs @ evs') e)" by (simp add: replay_append)
  then show ?thesis unfolding tracks_def by blast
qed

lemma tracks_same: "files_eq e1 e \<Longrightarrow> tracks e e1"
  unfolding tracks_def using replay_Nil [of e] by metis

lemma tracks_event: "files_eq e1 (apply_event ev e) \<Longrightarrow> tracks e e1"
  unfolding tracks_def using replay_single [of ev e] by metis

lemma tracks_f_write: "tracks e (f_write t e)"
  by (rule tracks_event [of _ "Append t"]) (simp add: files_eq_def)

lemma tracks_emit: "tracks e (emit w v e)"
proof (cases w)
  case True
  have "tracks (f_write Sep e) (f_write (Val v) (f_write Sep e))" by (rule tracks_f_write)
  with tracks_f_write [of e Sep] True show ?thesis
    by (auto simp: emit_def intro: tracks_trans)
next
  case False
  with tracks_f_write [of e "Val v"] show ?thesis by (simp add: emit_def)
qed

lemma tracks_step_emit:
  "tracks e (count_output (count_comparison (emit w v e)))"
proof -
  have "tracks (emit w v e) (count_output (count_comparison (emit w v e)))"
    by (rule tracks_same) (simp add: files_eq_def)
  with tracks_emit show ?thesis by (rule tracks_trans)
qed

lemma output_loop_tracks:
  "output_loop data cnt max_v i w e = (r, w1, e1) \<Longrightarrow> tracks e e1"
proof (induction data cnt max_v i w e rule: output_loop.induct)
  case (1 data cnt max_v i w e)
  show ?case
  proof (cases "i < cnt \<and> \<not> length data \<le> i \<and> data ! i < max_v")
    case True
    with "1.prems" have "output_loop data cnt max_v (i + 1) True
        (count_output (count_comparison (emit w (data ! i) e))) = (r, w1, e1)"
      by (subst (asm) output_loop.simps) simp
    from "1.IH" [OF _ _ _ this] True
    have "tracks (count_output (count_comparison (emit w (data ! i) e))) e1" by simp
    with tracks_step_emit show ?thesis by (rule tracks_trans)
  next
    case False
    with "1.prems" show ?thesis
      by (subst (asm) output_loop.simps) (auto split: if_splits simp: tracks_refl)
  qed
qed

lemma output_till_tracks:
  assumes "output_till data v inc w e = (r, w1, e1)"
  shows "tracks e e1"
proof -
  obtain q w0 x where o: "output_loop data (len (state e)) v (index (state e)) w e = (q, w0, x)"
    by (metis prod_cases3)
  note g = output_loop_tracks [OF o]
  show ?thesis
  proof (cases q)
    case (Inl err)
    with assms o g show ?thesis by (simp add: output_till_def)
  next
    case (Inr j)
    with assms o have e1: "e1 = (if inc then count_output (emit w0 v (set_index j x)) else set_index j x)"
      by (simp add: output_till_def Let_def)
    have a: "tracks x (set_index j x)" by (rule tracks_same) (simp add: files_eq_def)
    have b: "tracks (set_index j x) (count_output (emit w0 v (set_index j x)))"
      by (rule tracks_trans [OF tracks_emit]) (rule tracks_same, simp add: files_eq_def)
    have "tracks x e1" unfolding e1 using a tracks_trans [OF a b] by simp
    with g show ?thesis by (rule tracks_trans)
  qed
qed

lemma output_each_tracks:
  "output_each data vs w e = (r, w1, e1) \<Longrightarrow> tracks e e1"
proof (induction vs arbitrary: w e)
  case Nil
  then show ?case by (simp add: tracks_refl)
next
  case (Cons v vs)
  obtain q w0 x where t: "output_till data v True w e = (q, w0, x)"
    by (metis prod_cases3)
  note g = output_till_tracks [OF t]
  show ?case
  proof (cases q)
    case (Inl err)
    with Cons.prems t g show ?thesis by simp
  next
    case (Inr p)
    with Cons.prems t have "output_each data vs w0 (set_phase p x) = (r, w1, e1)" by simp
    from Cons.IH [OF this] have a: "tracks (set_phase p x) e1" .
    have "tracks x (set_phase p x)" by (rule tracks_same) (simp add: files_eq_def)
    from tracks_trans [OF g tracks_trans [OF this a]] show ?thesis .
  qed
qed


lemma tracks_files: "tracks e e1 \<Longrightarrow> files_eq e2 e1 \<Longrightarrow> tracks e e2"
  by (auto simp: tracks_def intro: files_eq_trans)

lemma branch_first_tracks: "branch_first data e = (msg, e1) \<Longrightarrow> tracks e e1"
  by (rule tracks_same) (auto simp: branch_first_def Let_def files_eq_def split: if_splits)

lemma branch_done_tracks:
  assumes "branch_done data vs w e = (r, w1, e1)"
  shows "tracks e e1"
proof (cases "phase (state e) = ''DONE''")
  case True
  with assms show ?thesis by (simp add: branch_done_def tracks_refl)
next
  case nd: False
  obtain q w0 x where o: "output_each data vs w e = (q, w0, x)" by (metis prod_cases3)
  note a = output_each_tracks [OF o]
  show ?thesis
  proof (cases "\<exists>u. q = Inr u \<and> data \<noteq> []")
    case False
    with assms o nd a show ?thesis
      by (cases q) (auto simp: branch_done_def)
  next
    case True
    obtain q2 w2 y where t: "output_till data (last data + 1) False w0 x = (q2, w2, y)"
      by (metis prod_cases3)
    note b = tracks_trans [OF a output_till_tracks [OF t]]
    show ?thesis
    proof (cases q2)
      case (Inl err)
      with True assms o t nd b show ?thesis by (auto simp: branch_done_def)
    next
      case (Inr p)
      with True assms o t nd have "e1 = set_phase p y" by (auto simp: branch_done_def)
      then have "files_eq e1 y" by (simp add: files_eq_def)
      with b show ?thesis by (rule tracks_files)
    qed
  qed
qed

lemma branch_else_tracks:
  assumes "branch_else data iv w e = (r, w1, e1)"
  shows "tracks e e1"
proof -
  let ?vs = "case iv of None \<Rightarrow> [] | Some vs \<Rightarrow> vs"
  obtain q w0 x where o: "output_each data ?vs w e = (q, w0, x)" by (metis prod_cases3)
  note a = output_each_tracks [OF o]
  show ?thesis
  proof (cases q)
    case (Inl err)
    with assms o a show ?thesis by (simp add: branch_else_def)
  next
    case (Inr u)
    with assms o have "files_eq e1 x"
      by (auto simp: branch_else_def Let_def files_eq_def split: if_splits)
    with a show ?thesis by (rule tracks_files)
  qed
qed

lemma dispatch_tracks:
  assumes "dispatch data ib w e = (r, w1, e1)"
  shows "tracks e e1"
proof (cases rule: dispatch_cases [of e ib data w])
  case First
  with assms branch_first_tracks [of data e "fst (branch_first data e)" e1]
  show ?thesis by auto
next
  case (Peer_done m)
  with assms branch_done_tracks [of data "vals m" w e r w1 e1]
  show ?thesis by simp
next
  case Other
  with assms branch_else_tracks [of data "map_option vals ib" w e r w1 e1]
  show ?thesis by simp
qed

lemma read_inbox_tracks: "read_inbox e = (raw, e1) \<Longrightarrow> tracks e e1"
proof (cases "inbox e")
  case None
  moreover assume "read_inbox e = (raw, e1)"
  ultimately show ?thesis by (simp add: read_inbox_def tracks_refl)
next
  case (Some m)
  moreover assume "read_inbox e = (raw, e1)"
  ultimately have "files_eq e1 (apply_event (Unlink m) e)"
    by (auto simp: read_inbox_def files_eq_def)
  then show ?thesis by (rule tracks_event)
qed

lemma finish_tracks: "tracks e (snd (finish w msg ib e))"
proof -
  have s: "tracks e (save_state e)"
    by (rule tracks_event [of _ "Save (state e)"]) (simp add: files_eq_def)
  show ?thesis
  proof (cases msg)
    case None
    with s show ?thesis by (simp add: finish_def Let_def)
  next
    case (Some m)
    let ?m1 = "m\<lparr>msg_type := (if w then CHR ''T'' else CHR ''F'') # msg_type m\<rparr>"
    have "tracks (save_state e) (write_msg ?m1 (save_state e))"
      by (rule tracks_event [of _ "Send ?m1"]) (simp add: files_eq_def)
    from tracks_trans [OF s this] Some show ?thesis by (simp add: finish_def Let_def)
  qed
qed

lemma step_tracks: "tracks e (snd (step data e))"
proof (cases rule: step_cases [of data e])
  case Done
  then show ?thesis by (simp add: tracks_same files_eq_def)
next
  case (Bad_flag raw e1 x)
  have "tracks e (e\<lparr>state := load_state data e\<rparr>)" by (rule tracks_same) (simp add: files_eq_def)
  from tracks_trans [OF this read_inbox_tracks [OF Bad_flag(2)]] Bad_flag(4) show ?thesis by simp
next
  case (Locked raw e1 w ib)
  have "tracks e (e\<lparr>state := load_state data e\<rparr>)" by (rule tracks_same) (simp add: files_eq_def)
  from tracks_trans [OF this read_inbox_tracks [OF Locked(2)]] Locked(5) show ?thesis by simp
next
  case (Raise raw e1 w ib x w1 e3)
  have "tracks e (e\<lparr>state := load_state data e\<rparr>)" by (rule tracks_same) (simp add: files_eq_def)
  from tracks_trans [OF this read_inbox_tracks [OF Raise(2)]] have a: "tracks e e1" .
  have "tracks e1 (unlock e1)" by (rule tracks_same) (simp add: files_eq_def)
  from tracks_trans [OF a tracks_trans [OF this dispatch_tracks [OF Raise(5)]]] Raise(6)
  show ?thesis by simp
next
  case (Finish raw e1 w ib msg w1 e3)
  have "tracks e (e\<lparr>state := load_state data e\<rparr>)" by (rule tracks_same) (simp add: files_eq_def)
  from tracks_trans [OF this read_inbox_tracks [OF Finish(2)]] have a: "tracks e e1" .
  have "tracks e1 (unlock e1)" by (rule tracks_same) (simp add: files_eq_def)
  from tracks_trans [OF a tracks_trans [OF this dispatch_tracks [OF Finish(5)]]]
  have "tracks e e3" .
  from tracks_trans [OF this finish_tracks [of e3 w1 msg ib]] Finish(6) show ?thesis by simp
qed

text \<open>
  The files a step leaves are those obtained by performing its file operations, in
  order, on the files it started from.
\<close>

lemma step_replay: "files_eq (snd (step data e)) (replay (events_of data e) e)"
proof -
  from step_tracks [of e data] obtain evs where f: "files_eq (snd (step data e)) (replay evs e)"
    by (auto simp: tracks_def)
  then have "trace (snd (step data e)) = trace e @ evs"
    by (simp add: files_eq_def trace_replay)
  then have "events_of data e = evs" by (simp add: events_of_def)
  with f show ?thesis by simp
qed

section \<open>The budget of the coordinator\<close>

text \<open>The number of calls grows by at most two per round, and the loop stops at the budget.\<close>

lemma turn_steps:
  "turn i data active steps s = (Inr (r, steps1), s1) \<Longrightarrow>
     steps1 = (if active then steps + 1 else steps)"
  by (auto simp: turn_def split: if_splits prod.splits sum.splits)

lemma round_steps:
  "round data_a data_b act_a act_b steps s = (Inr (a1, b1, steps2), s2) \<Longrightarrow>
     steps2 = steps + (if act_a then 1 else 0) + (if act_b then 1 else 0)"
  by (auto simp: round_def split: prod.splits sum.splits dest!: turn_steps)

lemma run_loop_bound:
  "run_loop data_a data_b max_steps act_a act_b steps s = (Inr (a1, b1, n), s1) \<Longrightarrow>
     int n \<le> max (int steps) (max_steps + 1)"
proof (induction data_a data_b max_steps act_a act_b steps s rule: run_loop.induct)
  case (1 data_a data_b max_steps act_a act_b steps s)
  show ?case
  proof (cases "(act_a \<or> act_b) \<and> int steps < max_steps")
    case False
    with "1.prems" show ?thesis by (subst (asm) run_loop.simps) auto
  next
    case True
    obtain q s2 where r: "round data_a data_b act_a act_b steps s = (q, s2)" by (metis surj_pair)
    show ?thesis
    proof (cases q)
      case (Inl x)
      with "1.prems" True r show ?thesis by (subst (asm) run_loop.simps) simp
    next
      case (Inr t)
      obtain a2 b2 n2 where t: "t = (a2, b2, n2)" by (metis prod_cases3)
      from "1.prems" True r Inr t
      have rec: "run_loop data_a data_b max_steps a2 b2 n2 s2 = (Inr (a1, b1, n), s1)"
        by (subst (asm) run_loop.simps) simp
      from round_steps [OF r [unfolded Inr t]] have "n2 \<le> steps + 2" by simp
      with "1.IH" [OF True r [symmetric] Inr t [symmetric] refl rec] True
      show ?thesis by simp
    qed
  qed
qed

lemma run_bound:
  "run data_a data_b max_steps s = (Inr r, s1) \<Longrightarrow> int (total_steps r) \<le> max 0 (max_steps + 1)"
proof -
  assume a: "run data_a data_b max_steps s = (Inr r, s1)"
  obtain q s2 where l: "run_loop data_a data_b max_steps True True 0 s = (q, s2)"
    by (metis surj_pair)
  show ?thesis
  proof (cases q)
    case (Inl x)
    with a l show ?thesis by (simp add: run_def)
  next
    case (Inr t)
    obtain a2 b2 n2 where t: "t = (a2, b2, n2)" by (metis prod_cases3)
    from run_loop_bound [OF l [unfolded Inr t]] a l Inr t show ?thesis
      by (auto simp: run_def)
  qed
qed

section \<open>Sample runs\<close>

lemma run_first_empty_succeeds:
  "map_sum id success (fst (run [] [3, 4] 10000 (fresh [] [3, 4]))) = Inr True \<and>
   out (snd (run [] [3, 4] 10000 (fresh [] [3, 4]))) = [Val 3, Sep, Val 4]"
  by code_simp

lemma run_second_empty_long_succeeds:
  "map_sum id success (fst (run [0, 1, 2, 3, 4, 5, 6, 7, 8, 9, 10, 11] [] 10000
       (fresh [0, 1, 2, 3, 4, 5, 6, 7, 8, 9, 10, 11] []))) = Inr True \<and>
   out (snd (run [0, 1, 2, 3, 4, 5, 6, 7, 8, 9, 10, 11] [] 10000
       (fresh [0, 1, 2, 3, 4, 5, 6, 7, 8, 9, 10, 11] []))) =
     [Val 0, Sep, Val 1, Sep, Val 2, Sep, Val 3, Sep, Val 4, Sep, Val 5, Sep, Val 6, Sep,
      Val 7, Sep, Val 8, Sep, Val 9, Sep, Val 10, Sep, Val 11]"
  by code_simp

lemma run_interleaved_succeeds:
  "map_sum id success (fst (run [1, 5, 9, 13, 17, 21] [2, 6, 10, 14, 18, 22] 10000
       (fresh [1, 5, 9, 13, 17, 21] [2, 6, 10, 14, 18, 22]))) = Inr True \<and>
   out (snd (run [1, 5, 9, 13, 17, 21] [2, 6, 10, 14, 18, 22] 10000
       (fresh [1, 5, 9, 13, 17, 21] [2, 6, 10, 14, 18, 22]))) =
     [Val 1, Sep, Val 2, Sep, Val 5, Sep, Val 6, Sep, Val 9, Sep, Val 10, Sep, Val 13, Sep,
      Val 14, Sep, Val 17, Sep, Val 18, Sep, Val 21, Sep, Val 22]"
  by code_simp

text \<open>The first step of a fresh worker with twelve values.\<close>

lemma first_env_step:
  "step twelve first_env =
     (Inr True,
      \<lparr>state = \<lparr>phase = ''LOCK'', index = 11, len = 12\<rparr>,
       stats = \<lparr>comparisons = 0, messages_sent = 1, messages_received = 0, values_output = 0\<rparr>,
       state_file = Some \<lparr>phase = ''LOCK'', index = 11, len = 12\<rparr>,
       inbox = None,
       outbox = Some \<lparr>msg_type = ''FUNLO'', vals = [0, 1, 2, 3, 4, 5, 6, 7, 8, 9, 10]\<rparr>,
       sink = [],
       trace = [Save \<lparr>phase = ''LOCK'', index = 11, len = 12\<rparr>,
                Send \<lparr>msg_type = ''FUNLO'', vals = [0, 1, 2, 3, 4, 5, 6, 7, 8, 9, 10]\<rparr>]\<rparr>)"
  by (simp add: step_def first_env_def twelve_def load_state_def initial_state_def
        read_inbox_def strip_flag_def has_type_def unlock_def dispatch_def branch_first_def
        finish_def slice_def zero_stats_def env_defs Let_def)

lemma first_env_events:
  "events_of twelve first_env =
     [Save \<lparr>phase = ''LOCK'', index = 11, len = 12\<rparr>,
      Send \<lparr>msg_type = ''FUNLO'', vals = [0, 1, 2, 3, 4, 5, 6, 7, 8, 9, 10]\<rparr>]"
  by (simp add: events_of_def first_env_step) (simp add: first_env_def)

section \<open>The claims\<close>

text \<open>
  C1. For every pair of sorted runs, empty ones included, \<^verbatim>\<open>Coordinator.run\<close> with a
  sufficient budget succeeds and the output file holds the sorted merge of the two runs.
  The code does not do this when both runs are empty: worker A sends its final message
  at once, and worker B, on receiving it, evaluates \<^verbatim>\<open>self.data[-1]\<close> on its empty run,
  which raises \<^verbatim>\<open>IndexError\<close>; the exception leaves \<^verbatim>\<open>Coordinator.run\<close>.
\<close>

theorem run_both_empty_raises:
  "fst (run [] [] 10000 (fresh [] [])) = Inl IndexError"
  by code_simp

text \<open>
  C2. When exactly one run is empty the protocol still succeeds and emits the other
  run in order. With \<open>[3]\<close> for worker A and the empty run for worker B, worker B writes
  the announced value \<open>3\<close> and then raises \<^verbatim>\<open>IndexError\<close> at \<^verbatim>\<open>self.data[-1]\<close>.
\<close>

theorem run_second_empty_raises:
  "fst (run [3] [] 10000 (fresh [3] [])) = Inl IndexError"
  by code_simp

text \<open>
  C3. On a well-formed configuration \<^verbatim>\<open>step\<close> never raises. A freshly constructed
  worker with an empty run that receives the final message of its peer is well formed
  (cursor 0, length 0, phase \<^verbatim>\<open>INIT\<close>), and its step raises \<^verbatim>\<open>IndexError\<close>.
\<close>

theorem step_empty_run_peer_done_raises:
  "wf_pstate [] (load_state [] empty_second_env) \<and>
   fst (step [] empty_second_env) = Inl IndexError"
  by (simp add: wf_pstate_def load_state_def empty_second_env_def initial_state_def
        step_def read_inbox_def strip_flag_def has_type_def unlock_def dispatch_def
        branch_done_def output_till_def output_loop.simps env_defs)

text \<open>
  C4. \<^verbatim>\<open>Coordinator.run\<close> calls \<^verbatim>\<open>step\<close> at most \<open>max_steps\<close> times, and reports success
  only if both workers finished within the budget. The budget is tested once per round
  of two calls, so with \<open>max_steps = 1\<close> the coordinator makes two calls and reports
  success.
\<close>

theorem run_exceeds_budget:
  "map_sum id (\<lambda>r. (success r, total_steps r)) (fst (run [1] [2] 1 (fresh [1] [2])))
     = Inr (True, 2)"
  by code_simp

text \<open>
  C5. A step of a worker whose persisted phase is \<^verbatim>\<open>LOCK\<close> and whose inbox file does
  not exist returns \<^verbatim>\<open>True\<close> and changes no file: the resulting configuration is the
  given one, with \<^verbatim>\<open>self.state\<close> reloaded from the state file. In particular the
  output file, both mailbox files, the state file, the statistics and the history of
  file operations are unchanged.
\<close>

theorem locked_step_no_effect:
  "phase (load_state data e) = ''LOCK'' \<Longrightarrow> inbox e = None \<Longrightarrow>
     step data e = (Inr True, e\<lparr>state := load_state data e\<rparr>)"
  by (simp add: step_def read_inbox_def strip_flag_def has_type_def)

theorem locked_step_no_effect_witness:
  "phase (load_state [0, 1, 2, 3, 4, 5, 6, 7, 8, 9, 10, 11] waiting_env) = ''LOCK'' \<and>
   inbox waiting_env = None \<and>
   step [0, 1, 2, 3, 4, 5, 6, 7, 8, 9, 10, 11] waiting_env =
     (Inr True, waiting_env\<lparr>state := \<lparr>phase = ''LOCK'', index = 11, len = 12\<rparr>\<rparr>)"
  using locked_step_no_effect [of "[0, 1, 2, 3, 4, 5, 6, 7, 8, 9, 10, 11]" waiting_env]
  by (simp add: load_state_def waiting_env_def)

text \<open>
  C6. Whenever a step sends a message, its last two file operations are the save of
  the state and then the send, and no other save or send happens in the step: the file
  operations of the step are operations on the inbox and the output file, then the
  save, then the send; the state file and the outbox end up holding exactly these
  two values. The persisted state is therefore written strictly before the message.
\<close>

theorem save_precedes_send:
  assumes "Send m \<in> set (events_of data e)"
  shows "\<exists>pre s. events_of data e = pre @ [Save s, Send m] \<and> list_all is_local pre \<and>
           state_file (snd (step data e)) = Some s \<and> outbox (snd (step data e)) = Some m"
  using assms by (rule step_events)

theorem save_precedes_send_witness:
  "Send \<lparr>msg_type = ''FUNLO'', vals = [0, 1, 2, 3, 4, 5, 6, 7, 8, 9, 10]\<rparr>
     \<in> set (events_of twelve first_env) \<and>
   (\<exists>pre s. events_of twelve first_env =
        pre @ [Save s, Send \<lparr>msg_type = ''FUNLO'', vals = [0, 1, 2, 3, 4, 5, 6, 7, 8, 9, 10]\<rparr>] \<and>
      list_all is_local pre \<and>
      state_file (snd (step twelve first_env)) = Some s \<and>
      outbox (snd (step twelve first_env)) =
        Some \<lparr>msg_type = ''FUNLO'', vals = [0, 1, 2, 3, 4, 5, 6, 7, 8, 9, 10]\<rparr>)"
proof -
  have h: "Send \<lparr>msg_type = ''FUNLO'', vals = [0, 1, 2, 3, 4, 5, 6, 7, 8, 9, 10]\<rparr>
             \<in> set (events_of twelve first_env)"
    by (simp add: first_env_events)
  from save_precedes_send [OF h] h show ?thesis by simp
qed

text \<open>
  The claim goes on to say that a crash between persisting and sending can never leave
  a resumed worker believing it has sent a message it has not. That part fails: if
  the first step of a worker with twelve values is cut after the save, the state file
  holds phase \<^verbatim>\<open>LOCK\<close> with the cursor past the first eleven values, the outbox file
  does not exist, and the step of a worker constructed anew on these files returns
  \<^verbatim>\<open>True\<close> and does nothing, waiting for the reply to a message that was never sent.
\<close>

theorem crash_between_save_and_send:
  "events_of twelve first_env =
     [Save \<lparr>phase = ''LOCK'', index = 11, len = 12\<rparr>,
      Send \<lparr>msg_type = ''FUNLO'', vals = [0, 1, 2, 3, 4, 5, 6, 7, 8, 9, 10]\<rparr>] \<and>
   state_file (crash_after 1 twelve first_env) = Some \<lparr>phase = ''LOCK'', index = 11, len = 12\<rparr> \<and>
   outbox (crash_after 1 twelve first_env) = None \<and>
   step twelve (construct twelve (crash_after 1 twelve first_env)) =
     (Inr True, construct twelve (crash_after 1 twelve first_env))"
proof -
  have c: "crash_after 1 twelve first_env =
      first_env\<lparr>state_file := Some \<lparr>phase = ''LOCK'', index = 11, len = 12\<rparr>,
                trace := [Save \<lparr>phase = ''LOCK'', index = 11, len = 12\<rparr>]\<rparr>"
    by (simp add: crash_after_def first_env_events replay_def) (simp add: first_env_def)
  have l: "phase (load_state twelve (construct twelve (crash_after 1 twelve first_env))) = ''LOCK''"
    unfolding c by (simp add: construct_def load_state_def)
  have i: "inbox (construct twelve (crash_after 1 twelve first_env)) = None"
    unfolding c by (simp add: construct_def first_env_def)
  have "step twelve (construct twelve (crash_after 1 twelve first_env)) =
      (Inr True, (construct twelve (crash_after 1 twelve first_env))
         \<lparr>state := load_state twelve (construct twelve (crash_after 1 twelve first_env))\<rparr>)"
    using l i by (simp add: step_def read_inbox_def strip_flag_def has_type_def)
  moreover have "(construct twelve (crash_after 1 twelve first_env))
         \<lparr>state := load_state twelve (construct twelve (crash_after 1 twelve first_env))\<rparr>
       = construct twelve (crash_after 1 twelve first_env)"
    by (simp add: construct_def load_state_def)
  moreover have "state_file (crash_after 1 twelve first_env) =
      Some \<lparr>phase = ''LOCK'', index = 11, len = 12\<rparr>"
    unfolding c by simp
  moreover have "outbox (crash_after 1 twelve first_env) = None"
    unfolding c by (simp add: first_env_def)
  ultimately show ?thesis
    using first_env_events by simp
qed

text \<open>
  C7. A worker constructed anew on the files of a running worker behaves like that
  worker from then on. If two worker objects are connected to the same files, then so
  are a fresh worker constructed in place of the first and the second; their next steps
  return the same value (or raise the same exception), leave the same \<^verbatim>\<open>self.state\<close>,
  and leave the same files with the same history of file operations. As the
  hypothesis holds again afterwards, this extends to every later step, whatever the
  peer does to the files in between.
\<close>

theorem restart_equivalence:
  "files_eq e1 e2 \<Longrightarrow>
     files_eq (construct data e1) e2 \<and>
     fst (step data (construct data e1)) = fst (step data e2) \<and>
     state (snd (step data (construct data e1))) = state (snd (step data e2)) \<and>
     files_eq (snd (step data (construct data e1))) (snd (step data e2))"
proof -
  assume "files_eq e1 e2"
  then have c: "files_eq (construct data e1) e2"
    by (simp add: files_eq_def construct_def)
  from same_run_step [OF c, of data] c show ?thesis
    by (simp add: same_run_def)
qed

theorem restart_equivalence_witness:
  "files_eq replied_env replied_env \<and>
   files_eq (construct [2, 3, 5] replied_env) replied_env \<and>
   fst (step [2, 3, 5] (construct [2, 3, 5] replied_env)) = fst (step [2, 3, 5] replied_env) \<and>
   state (snd (step [2, 3, 5] (construct [2, 3, 5] replied_env))) =
     state (snd (step [2, 3, 5] replied_env)) \<and>
   files_eq (snd (step [2, 3, 5] (construct [2, 3, 5] replied_env)))
     (snd (step [2, 3, 5] replied_env))"
  using restart_equivalence [of replied_env replied_env "[2, 3, 5]"]
  by (simp add: files_eq_def)

text \<open>
  C8. A step of a worker whose persisted phase is \<^verbatim>\<open>DONE\<close> returns \<^verbatim>\<open>False\<close> at once:
  the resulting configuration is the given one, with \<^verbatim>\<open>self.state\<close> reloaded from the
  state file. The inbox file is neither read nor removed, and the output file, the
  outbox file, the state file, the statistics and the history of file operations are
  unchanged.
\<close>

theorem done_step_no_effect:
  "phase (load_state data e) = ''DONE'' \<Longrightarrow>
     step data e = (Inr False, e\<lparr>state := load_state data e\<rparr>)"
  by (simp add: step_def)

theorem done_step_no_effect_witness:
  "phase (load_state [1, 2] finished_env) = ''DONE'' \<and>
   step [1, 2] finished_env =
     (Inr False, finished_env\<lparr>state := \<lparr>phase = ''DONE'', index = 2, len = 2\<rparr>\<rparr>)"
  using done_step_no_effect [of "[1, 2]" finished_env]
  by (simp add: load_state_def finished_env_def)

text \<open>
  C9. Every message a step sends carries at most eleven integers and has type
  \<^verbatim>\<open>UNLO\<close> or \<^verbatim>\<open>DONE\<close> after the flag character. When the peer has announced that it
  is done, the message sent is the acknowledgment, of type \<^verbatim>\<open>DONE\<close> with no values.
  Otherwise (first move and steady state) the values are the slice of the worker's own
  run that starts at a position \<open>i\<close> at or after the persisted cursor and ends eleven
  values later or at the stored length, and the new persisted cursor is the end of that
  slice: the values sent had not been sent before.
\<close>

theorem sent_message_bounded:
  assumes "Send m \<in> set (events_of data e)"
  shows "length (vals m) \<le> 11 \<and> tl (msg_type m) \<in> {''UNLO'', ''DONE''} \<and>
         (if peer_done e then vals m = [] \<and> tl (msg_type m) = ''DONE''
          else \<exists>i. index (load_state data e) \<le> i \<and>
                 vals m = slice data i (min (len (load_state data e)) (i + 11)) \<and>
                 index (load_state data (snd (step data e))) =
                   min (len (load_state data e)) (i + 11))"
proof (cases rule: step_cases [of data e])
  case Done
  then have "events_of data e = []" by (simp add: events_of_def)
  with assms show ?thesis by simp
next
  case (Bad_flag raw e1 x)
  from read_inbox_grows [OF Bad_flag(2)] Bad_flag(4) have "grows e (snd (step data e))"
    by (simp add: grows_def)
  from local_no_send [OF grows_events [OF this]] assms show ?thesis by simp
next
  case (Locked raw e1 w ib)
  from read_inbox_grows [OF Locked(2)] Locked(5) have "grows e (snd (step data e))"
    by (simp add: grows_def)
  from local_no_send [OF grows_events [OF this]] assms show ?thesis by simp
next
  case (Raise raw e1 w ib x w1 e3)
  have "grows (e\<lparr>state := load_state data e\<rparr>) e1" using Raise(2) by (rule read_inbox_grows)
  then have "grows e (unlock e1)" by (simp add: grows_def)
  from grows_trans [OF this dispatch_grows [OF Raise(5)]] Raise(6)
  have "grows e (snd (step data e))" by simp
  from local_no_send [OF grows_events [OF this]] assms show ?thesis by simp
next
  case (Finish raw e1 w ib msg w1 e3)
  note r = read_inbox_fields [OF Finish(2)]
  from step_finish_events [OF Finish(2) Finish(5) Finish(6)]
  obtain pre where pre: "list_all is_local pre"
    "events_of data e = pre @ Save (state e3) #
       (case msg of None \<Rightarrow> []
        | Some m \<Rightarrow> [Send (m\<lparr>msg_type := (if w1 then CHR ''T'' else CHR ''F'') # msg_type m\<rparr>)])"
    by blast
  show ?thesis
  proof (cases msg)
    case None
    with pre assms local_no_send [OF pre(1)] show ?thesis by simp
  next
    case (Some m0)
    from Some pre assms local_no_send [OF pre(1), of m]
    have m: "m = m0\<lparr>msg_type := (if w1 then CHR ''T'' else CHR ''F'') # msg_type m0\<rparr>" by simp
    have pd: "peer_done e = has_type ib ''DONE''"
      using r Finish(3) by (simp add: peer_done_def)
    have st: "index (state (unlock e1)) = index (load_state data e)"
      "len (state (unlock e1)) = len (load_state data e)" using r by simp_all
    have fin: "load_state data (snd (step data e)) = state e3"
      using Finish(6) finish_state [of w1 msg ib e3] by (simp add: load_state_def)
    have d: "msg_type m0 \<in> {''UNLO'', ''DONE''}"
      "if has_type ib ''DONE'' then vals m0 = [] \<and> msg_type m0 = ''DONE''
       else \<exists>i. index (load_state data e) \<le> i \<and>
              vals m0 = slice data i (min (len (load_state data e)) (i + 11)) \<and>
              index (state e3) = min (len (load_state data e)) (i + 11)"
      using dispatch_msg [OF Finish(5) [unfolded Some]] st
      by (simp_all split: if_splits)
    have len: "length (vals m0) \<le> 11"
      using d(2) length_slice by (auto split: if_splits)
    show ?thesis
      using d len by (simp add: m pd fin)
  qed
qed

theorem sent_message_bounded_witness:
  "Send \<lparr>msg_type = ''FUNLO'', vals = [0, 1, 2, 3, 4, 5, 6, 7, 8, 9, 10]\<rparr>
     \<in> set (events_of twelve first_env) \<and>
   length [0, 1, 2, 3, 4, 5, 6, 7, 8, 9, 10 :: int] \<le> 11 \<and>
   \<not> peer_done first_env \<and>
   (\<exists>i. index (load_state twelve first_env) \<le> i \<and>
      [0, 1, 2, 3, 4, 5, 6, 7, 8, 9, 10] =
        slice twelve i (min (len (load_state twelve first_env)) (i + 11)) \<and>
      index (load_state twelve (snd (step twelve first_env))) =
        min (len (load_state twelve first_env)) (i + 11))"
proof -
  have h: "Send \<lparr>msg_type = ''FUNLO'', vals = [0, 1, 2, 3, 4, 5, 6, 7, 8, 9, 10]\<rparr>
             \<in> set (events_of twelve first_env)"
    by (simp add: first_env_events)
  have np: "\<not> peer_done first_env"
    by (simp add: peer_done_def first_env_def strip_flag_def has_type_def)
  from sent_message_bounded [OF h] np h show ?thesis by simp
qed

text \<open>
  C10. If the persisted state (the state file, or the initial state when there is
  none) is well formed before a step, it is well formed after the step, whether the
  step returns or raises, and the persisted cursor has not decreased. The cursor is a
  natural number here, so it is never negative.
\<close>

theorem step_preserves_wf:
  assumes "wf_pstate data (load_state data e)"
  shows "wf_pstate data (load_state data (snd (step data e))) \<and>
         index (load_state data e) \<le> index (load_state data (snd (step data e)))"
proof (cases rule: step_cases [of data e])
  case Done
  with assms show ?thesis by (simp add: load_state_def)
next
  case (Bad_flag raw e1 x)
  with assms read_inbox_fields [OF Bad_flag(2)] show ?thesis by (simp add: load_state_def)
next
  case (Locked raw e1 w ib)
  with assms read_inbox_fields [OF Locked(2)] show ?thesis by (simp add: load_state_def)
next
  case (Raise raw e1 w ib x w1 e3)
  with assms read_inbox_fields [OF Raise(2)] dispatch_state_file [OF Raise(5)]
  show ?thesis by (simp add: load_state_def)
next
  case (Finish raw e1 w ib msg w1 e3)
  note r = read_inbox_fields [OF Finish(2)]
  have st: "state e1 = load_state data e" using r by simp
  have i: "index (state (unlock e1)) \<le> len (state (unlock e1))"
    using assms st by (simp add: wf_pstate_def)
  have nd: "phase (state (unlock e1)) \<noteq> ''DONE''"
    using Finish(1) st by (simp add: unlock_phase)
  from dispatch_wf [OF Finish(5) i nd] dispatch_state_file [OF Finish(5)] assms st
  have "wf_pstate data (state e3) \<and> index (load_state data e) \<le> index (state e3)"
    by (auto simp: wf_pstate_def)
  with Finish(6) finish_state [of w1 msg ib e3] show ?thesis
    by (simp add: load_state_def)
qed

theorem step_preserves_wf_witness:
  "wf_pstate twelve (load_state twelve first_env) \<and>
   wf_pstate twelve (load_state twelve (snd (step twelve first_env))) \<and>
   index (load_state twelve first_env) \<le> index (load_state twelve (snd (step twelve first_env))) \<and>
   load_state twelve first_env = \<lparr>phase = ''INIT'', index = 0, len = 12\<rparr> \<and>
   load_state twelve (snd (step twelve first_env)) = \<lparr>phase = ''LOCK'', index = 11, len = 12\<rparr>"
proof -
  have h: "wf_pstate twelve (load_state twelve first_env)"
    by (simp add: wf_pstate_def load_state_def first_env_def initial_state_def twelve_def)
  from step_preserves_wf [OF h] h show ?thesis
    by (simp add: first_env_step load_state_def) (simp add: first_env_def initial_state_def twelve_def)
qed

end
